theory Spec2Isabelle
  imports Main "HOL-Library.Word"
begin

section \<open>The resumable chunked upload stream of ews-mail-ingest\<close>

text \<open>
  The class \<^verbatim>\<open>GCSObjectStreamUpload\<close> exists twice in the repository: in
  \<^verbatim>\<open>cloud_function/storage/base.py\<close> and in
  \<^verbatim>\<open>functions/ews-mail-ingest/main.py\<close>. Both are embedded here, the second
  with the suffix \<open>_main\<close>. A stream object is a record that is passed in and returned
  updated; an exception is the left summand of the result, and the state the object is
  left in comes back with it.
\<close>

subsection \<open>Bytes and Python slices\<close>

type_synonym bytes = "8 word list"

text \<open>
  \<^verbatim>\<open>b[i:]\<close> and \<^verbatim>\<open>b[:i]\<close> for any Python integer \<open>i\<close>: a negative index counts
  from the end, and every index is clamped to the range of the sequence.
\<close>

definition slice_from :: "'a list \<Rightarrow> int \<Rightarrow> 'a list" where
  "slice_from b i = (if 0 \<le> i then drop (nat i) b else drop (nat (int (length b) + i)) b)"

definition slice_to :: "'a list \<Rightarrow> int \<Rightarrow> 'a list" where
  "slice_to b i = (if 0 \<le> i then take (nat i) b else take (nat (int (length b) + i)) b)"

subsection \<open>The upload session of the library\<close>

text \<open>
  \<^verbatim>\<open>requests.ResumableUpload\<close> belongs to the library google.resumable_media,
  not to the repository. The stream sees four of its calls: the constructor,
  \<^verbatim>\<open>initiate\<close>, \<^verbatim>\<open>transmit_next_chunk\<close> and \<^verbatim>\<open>recover\<close>. What the backend
  answers to a request is its own choice, so it is a parameter: the answer to the
  \<open>k\<close>-th request of a session, which is to accept it, to reject it (the library then
  raises \<^verbatim>\<open>common.InvalidResponse\<close>), or none at all (the transport raises).
\<close>

datatype response = Accepted | Rejected | Broken

datatype error = InvalidResponse | TransportError | AttributeError | ValueError

type_synonym backend = "nat \<Rightarrow> response"

definition raise_of :: "response \<Rightarrow> error + unit" where
  "raise_of r = (case r of Accepted \<Rightarrow> Inr () | Rejected \<Rightarrow> Inl InvalidResponse
                 | Broken \<Rightarrow> Inl TransportError)"

text \<open>
  One transmission as the backend sees it: the offset it starts at, its bytes, and
  whether it declares the total length of the object, which is what makes a chunk the
  final one.
\<close>

record transmission =
  tx_start :: int
  tx_payload :: bytes
  tx_final :: bool

text \<open>
  The session: what it was created and initiated with, whether its last transmission was
  rejected (\<open>rq_invalid\<close>), whether the backend has accepted its final chunk and so
  holds the whole object (\<open>rq_finished\<close>), and what was asked of the backend so far.
\<close>

record request =
  rq_upload_url :: string
  rq_chunk_size :: int
  rq_content_type :: "string option"
  rq_stream_final :: bool
  rq_name :: string
  rq_invalid :: bool
  rq_finished :: bool
  rq_sent :: "transmission list"
  rq_recovers :: nat
  rq_calls :: nat

text \<open>
  The object itself. \<open>s_content_type\<close> is the attribute \<^verbatim>\<open>_content_type\<close> of the
  class in base.py; the class in main.py has no such attribute, and none of its methods
  reads the field. \<open>s_returned\<close> is a history variable, not an attribute: the values
  \<^verbatim>\<open>read\<close> has returned so far, oldest first.
\<close>

record stream =
  s_bucket :: string
  s_blob :: string
  s_content_type :: "string option"
  s_buffer :: bytes
  s_buffer_size :: int
  s_chunk_size :: int
  s_read :: int
  s_request :: "request option"
  s_returned :: "bytes list"

text \<open>
  Modelled from the spec: the constructor of the library's session (not part of the
  repository) fixes the chunk size when the session is created. The spec requires the
  chunk size to be a multiple of the unit the backend mandates, and the library refuses
  any other; this model refuses none, so that what is proved of every chunk size holds
  of the admissible ones, the default \<open>256 * 1024\<close> among them.
\<close>

definition ResumableUpload :: "string \<Rightarrow> int \<Rightarrow> request" where
  "ResumableUpload upload_url chunk_size =
     \<lparr>rq_upload_url = upload_url, rq_chunk_size = chunk_size, rq_content_type = None,
      rq_stream_final = False, rq_name = [], rq_invalid = False, rq_finished = False,
      rq_sent = [], rq_recovers = 0, rq_calls = 0\<rparr>"

text \<open>
  Modelled from the spec: \<^verbatim>\<open>initiate\<close> of the library (not part of the repository)
  registers the session at the backend with the content type, the object name and the
  flag \<^verbatim>\<open>stream_final\<close> it is given, and raises when the backend does not accept
  it. The spec calls a failure here fatal to the session, and the library also refuses
  a stream that is not at its beginning; this model lets the session go on in both
  cases, so that what is proved of every session holds of those whose initiation
  succeeded, the only ones a \<^verbatim>\<open>with\<close> block runs its body on. In this and the next
  two definitions, a call through \<^verbatim>\<open>self._request\<close> while that attribute is still
  \<^verbatim>\<open>None\<close> raises AttributeError.
\<close>

definition initiate ::
  "backend \<Rightarrow> stream \<Rightarrow> string option \<Rightarrow> bool \<Rightarrow> string \<Rightarrow> (error + unit) \<times> stream" where
  "initiate env s content_type stream_final name =
     (case s_request s of
        None \<Rightarrow> (Inl AttributeError, s)
      | Some rq \<Rightarrow>
          (raise_of (env (rq_calls rq)),
           s\<lparr>s_request := Some (rq\<lparr>rq_content_type := content_type,
                 rq_stream_final := stream_final, rq_name := name,
                 rq_calls := Suc (rq_calls rq)\<rparr>)\<rparr>))"

text \<open>
  Modelled from the spec: \<^verbatim>\<open>transmit_next_chunk\<close> of the library (not part of the
  repository). A session that is finished, or whose last transmission was rejected and
  that has not recovered since, refuses the call before it touches the stream. Otherwise
  the session asks the stream it was initiated with for its cursor (\<^verbatim>\<open>tell\<close>), reads
  exactly one window of the session's chunk size from it (\<^verbatim>\<open>read\<close>) and sends the
  window; only then does the backend answer, so the window is taken from the stream
  whether or not it is accepted. The chunk declares the total length of the object, and
  so is the final one, when the total is known: from the start for a session initiated
  with \<^verbatim>\<open>stream_final\<close>, and otherwise as soon as the stream returns fewer bytes than
  one chunk. A final chunk the backend accepts completes the object; a rejected
  transmission leaves the session invalid. The two methods of the stream are
  parameters, since the library calls whichever object it was given as \<^verbatim>\<open>stream\<close>.
\<close>

definition transmit_next_chunk ::
  "(stream \<Rightarrow> int \<Rightarrow> bytes \<times> stream) \<Rightarrow> (stream \<Rightarrow> int) \<Rightarrow> backend \<Rightarrow> stream
     \<Rightarrow> (error + unit) \<times> stream" where
  "transmit_next_chunk read_fn tell_fn env s =
     (case s_request s of
        None \<Rightarrow> (Inl AttributeError, s)
      | Some rq \<Rightarrow>
          if rq_finished rq \<or> rq_invalid rq then (Inl ValueError, s)
          else
            (let start_byte = tell_fn s;
                 r = read_fn s (rq_chunk_size rq);
                 final = (rq_stream_final rq \<or> int (length (fst r)) < rq_chunk_size rq);
                 tx = \<lparr>tx_start = start_byte, tx_payload = fst r, tx_final = final\<rparr>;
                 answer = env (rq_calls rq)
             in (raise_of answer,
                 (snd r)\<lparr>s_request := Some (rq\<lparr>rq_invalid := (answer = Rejected),
                            rq_finished := (answer = Accepted \<and> final),
                            rq_sent := rq_sent rq @ [tx],
                            rq_calls := Suc (rq_calls rq)\<rparr>)\<rparr>)))"

text \<open>
  Modelled from the spec: \<^verbatim>\<open>recover\<close> of the library (not part of the repository)
  asks the backend for the offset it holds and, when the backend answers, puts the
  stream back at that offset, so that the next transmission resends from there. It does
  so with the stream's \<^verbatim>\<open>seek\<close>. Neither class of the repository defines
  \<^verbatim>\<open>seek\<close> (each has \<^verbatim>\<open>read\<close> and \<^verbatim>\<open>tell\<close> only), so for these streams
  the call raises AttributeError once the backend has answered, and what the backend's
  refusal or the transport raises otherwise: it never returns, and the session stays
  invalid.
\<close>

definition recover :: "backend \<Rightarrow> stream \<Rightarrow> (error + unit) \<times> stream" where
  "recover env s =
     (case s_request s of
        None \<Rightarrow> (Inl AttributeError, s)
      | Some rq \<Rightarrow>
          (case env (rq_calls rq) of
             Accepted \<Rightarrow> Inl AttributeError
           | Rejected \<Rightarrow> Inl InvalidResponse
           | Broken \<Rightarrow> Inl TransportError,
           s\<lparr>s_request := Some (rq\<lparr>rq_recovers := Suc (rq_recovers rq),
                 rq_calls := Suc (rq_calls rq)\<rparr>)\<rparr>))"

subsection \<open>GCSObjectStreamUpload in \<^verbatim>\<open>cloud_function/storage/base.py\<close>\<close>

definition default_chunk_size :: int where
  "default_chunk_size = 256 * 1024"

definition init :: "string \<Rightarrow> string \<Rightarrow> string option \<Rightarrow> int \<Rightarrow> stream" where
  "init bucket_name blob_name content_type chunk_size =
     \<lparr>s_bucket = bucket_name, s_blob = blob_name, s_content_type = content_type,
      s_buffer = [], s_buffer_size = 0, s_chunk_size = chunk_size, s_read = 0,
      s_request = None, s_returned = []\<rparr>"

definition read :: "stream \<Rightarrow> int \<Rightarrow> bytes \<times> stream" where
  "read s chunk_size =
     (let to_read = min chunk_size (s_buffer_size s);
          memview = s_buffer s;
          out = slice_to memview to_read
      in (out,
          s\<lparr>s_buffer := slice_from memview to_read,
            s_read := s_read s + to_read,
            s_buffer_size := s_buffer_size s - to_read,
            s_returned := s_returned s @ [out]\<rparr>))"

definition tell :: "stream \<Rightarrow> int" where
  "tell s = s_read s"

definition start :: "backend \<Rightarrow> stream \<Rightarrow> (error + unit) \<times> stream" where
  "start env s =
     (let url = ''https://www.googleapis.com/upload/storage/v1/b/'' @ s_bucket s
                @ ''/o?uploadType=resumable'';
          s1 = s\<lparr>s_request := Some (ResumableUpload url (s_chunk_size s))\<rparr>
      in initiate env s1 (s_content_type s1) False (s_blob s1))"

definition stop :: "backend \<Rightarrow> stream \<Rightarrow> (error + unit) \<times> stream" where
  "stop env s = transmit_next_chunk read tell env s"

text \<open>
  The loop of \<^verbatim>\<open>write\<close>. Nothing in the source bounds it, so it is a partial
  function: \<open>None\<close> is the loop that never ends.
\<close>

partial_function (option) write_loop ::
  "backend \<Rightarrow> stream \<Rightarrow> ((error + unit) \<times> stream) option" where
  "write_loop env s =
     (if s_buffer_size s \<ge> s_chunk_size s then
        (case transmit_next_chunk read tell env s of
           (Inr u, s1) \<Rightarrow> write_loop env s1
         | (Inl InvalidResponse, s1) \<Rightarrow>
             (case recover env s1 of
                (Inr u, s2) \<Rightarrow> write_loop env s2
              | (Inl e, s2) \<Rightarrow> Some (Inl e, s2))
         | (Inl e, s1) \<Rightarrow> Some (Inl e, s1))
      else Some (Inr (), s))"

definition write_data :: "backend \<Rightarrow> stream \<Rightarrow> bytes \<Rightarrow> ((error + int) \<times> stream) option" where
  "write_data env s data =
     (let data_len = int (length data);
          s1 = s\<lparr>s_buffer_size := s_buffer_size s + data_len,
                 s_buffer := s_buffer s @ data\<rparr>
      in case write_loop env s1 of
           None \<Rightarrow> None
         | Some (Inl e, s2) \<Rightarrow> Some (Inl e, s2)
         | Some (Inr u, s2) \<Rightarrow> Some (Inr data_len, s2))"

definition enter :: "backend \<Rightarrow> stream \<Rightarrow> (error + unit) \<times> stream" where
  "enter env s = start env s"

definition exit_scope :: "backend \<Rightarrow> error option \<Rightarrow> stream \<Rightarrow> (error + unit) \<times> stream" where
  "exit_scope env exc_type s = (if exc_type = None then stop env s else (Inr (), s))"

subsection \<open>GCSObjectStreamUpload in \<^verbatim>\<open>functions/ews-mail-ingest/main.py\<close>\<close>

text \<open>
  The second class takes no content type: \<^verbatim>\<open>start\<close> passes the literal
  \<^verbatim>\<open>'application/octet-stream'\<close>.
\<close>

definition init_main :: "string \<Rightarrow> string \<Rightarrow> int \<Rightarrow> stream" where
  "init_main bucket_name blob_name chunk_size =
     \<lparr>s_bucket = bucket_name, s_blob = blob_name, s_content_type = None,
      s_buffer = [], s_buffer_size = 0, s_chunk_size = chunk_size, s_read = 0,
      s_request = None, s_returned = []\<rparr>"

definition read_main :: "stream \<Rightarrow> int \<Rightarrow> bytes \<times> stream" where
  "read_main s chunk_size =
     (let to_read = min chunk_size (s_buffer_size s);
          memview = s_buffer s;
          out = slice_to memview to_read
      in (out,
          s\<lparr>s_buffer := slice_from memview to_read,
            s_read := s_read s + to_read,
            s_buffer_size := s_buffer_size s - to_read,
            s_returned := s_returned s @ [out]\<rparr>))"

definition tell_main :: "stream \<Rightarrow> int" where
  "tell_main s = s_read s"

definition start_main :: "backend \<Rightarrow> stream \<Rightarrow> (error + unit) \<times> stream" where
  "start_main env s =
     (let url = ''https://www.googleapis.com/upload/storage/v1/b/'' @ s_bucket s
                @ ''/o?uploadType=resumable'';
          s1 = s\<lparr>s_request := Some (ResumableUpload url (s_chunk_size s))\<rparr>
      in initiate env s1 (Some ''application/octet-stream'') False (s_blob s1))"

definition stop_main :: "backend \<Rightarrow> stream \<Rightarrow> (error + unit) \<times> stream" where
  "stop_main env s = transmit_next_chunk read_main tell_main env s"

partial_function (option) write_loop_main ::
  "backend \<Rightarrow> stream \<Rightarrow> ((error + unit) \<times> stream) option" where
  "write_loop_main env s =
     (if s_buffer_size s \<ge> s_chunk_size s then
        (case transmit_next_chunk read_main tell_main env s of
           (Inr u, s1) \<Rightarrow> write_loop_main env s1
         | (Inl InvalidResponse, s1) \<Rightarrow>
             (case recover env s1 of
                (Inr u, s2) \<Rightarrow> write_loop_main env s2
              | (Inl e, s2) \<Rightarrow> Some (Inl e, s2))
         | (Inl e, s1) \<Rightarrow> Some (Inl e, s1))
      else Some (Inr (), s))"

definition write_data_main ::
  "backend \<Rightarrow> stream \<Rightarrow> bytes \<Rightarrow> ((error + int) \<times> stream) option" where
  "write_data_main env s data =
     (let data_len = int (length data);
          s1 = s\<lparr>s_buffer_size := s_buffer_size s + data_len,
                 s_buffer := s_buffer s @ data\<rparr>
      in case write_loop_main env s1 of
           None \<Rightarrow> None
         | Some (Inl e, s2) \<Rightarrow> Some (Inl e, s2)
         | Some (Inr u, s2) \<Rightarrow> Some (Inr data_len, s2))"

definition enter_main :: "backend \<Rightarrow> stream \<Rightarrow> (error + unit) \<times> stream" where
  "enter_main env s = start_main env s"

definition exit_scope_main ::
  "backend \<Rightarrow> error option \<Rightarrow> stream \<Rightarrow> (error + unit) \<times> stream" where
  "exit_scope_main env exc_type s = (if exc_type = None then stop_main env s else (Inr (), s))"

subsection \<open>Callers\<close>

text \<open>
  The body of a \<^verbatim>\<open>with\<close> block that writes one piece of data after the other, as
  \<^verbatim>\<open>StorageService._store_file\<close> does: the first write that raises ends the body.
\<close>

fun writes :: "backend \<Rightarrow> stream \<Rightarrow> bytes list \<Rightarrow> ((error + unit) \<times> stream) option" where
  "writes env s [] = Some (Inr (), s)"
| "writes env s (d # ds) =
     (case write_data env s d of
        None \<Rightarrow> None
      | Some (Inl e, s1) \<Rightarrow> Some (Inl e, s1)
      | Some (Inr n, s1) \<Rightarrow> writes env s1 ds)"

text \<open>
  The \<^verbatim>\<open>with\<close> statement around such a body: \<^verbatim>\<open>__enter__\<close>, the body, and
  \<^verbatim>\<open>__exit__\<close> with the exception that is unwinding, if any. \<^verbatim>\<open>__exit__\<close> returns
  nothing, so that exception goes on to the caller.
\<close>

definition with_stream ::
  "backend \<Rightarrow> stream \<Rightarrow> bytes list \<Rightarrow> ((error + unit) \<times> stream) option" where
  "with_stream env s ds =
     (case enter env s of
        (Inl e, s1) \<Rightarrow> Some (Inl e, s1)
      | (Inr u, s1) \<Rightarrow>
          (case writes env s1 ds of
             None \<Rightarrow> None
           | Some (Inl e, s2) \<Rightarrow>
               (case exit_scope env (Some e) s2 of
                  (Inl e', s3) \<Rightarrow> Some (Inl e', s3)
                | (Inr u', s3) \<Rightarrow> Some (Inl e, s3))
           | Some (Inr u', s2) \<Rightarrow> Some (exit_scope env None s2)))"

text \<open>
  Any sequence of calls on one object. A caller may catch what a call raises and go on,
  so the sequence continues after an exception; it ends early only when a call never
  returns.
\<close>

datatype op = Start | Write bytes | Read int | Tell | Stop

fun run :: "backend \<Rightarrow> stream \<Rightarrow> op list \<Rightarrow> stream option" where
  "run env s [] = Some s"
| "run env s (Start # ops) = run env (snd (start env s)) ops"
| "run env s (Write d # ops) =
     (case write_data env s d of None \<Rightarrow> None | Some (r, s1) \<Rightarrow> run env s1 ops)"
| "run env s (Read n # ops) = run env (snd (read s n)) ops"
| "run env s (Tell # ops) = run env s ops"
| "run env s (Stop # ops) = run env (snd (stop env s)) ops"

fun nonneg_reads :: "op list \<Rightarrow> bool" where
  "nonneg_reads [] = True"
| "nonneg_reads (Read n # ops) = (0 \<le> n \<and> nonneg_reads ops)"
| "nonneg_reads (x # ops) = nonneg_reads ops"

fun written :: "op list \<Rightarrow> bytes" where
  "written [] = []"
| "written (Write d # ops) = d @ written ops"
| "written (x # ops) = written ops"

text \<open>
  What the backend was sent on the current session, how often it was asked to recover,
  and the bytes of all windows it was handed, in order.
\<close>

definition sent :: "stream \<Rightarrow> transmission list" where
  "sent s = (case s_request s of None \<Rightarrow> [] | Some rq \<Rightarrow> rq_sent rq)"

definition recovers :: "stream \<Rightarrow> nat" where
  "recovers s = (case s_request s of None \<Rightarrow> 0 | Some rq \<Rightarrow> rq_recovers rq)"

definition handed :: "stream \<Rightarrow> bytes" where
  "handed s = concat (map tx_payload (sent s))"

text \<open>
  Whether the backend holds the completed object; a session initiated without
  \<^verbatim>\<open>stream_final\<close> that is not finished and on which no chunk so far was marked
  final; and such a session that is not invalid either, so that the upload is still
  under way.
\<close>

definition committed :: "stream \<Rightarrow> bool" where
  "committed s = (case s_request s of None \<Rightarrow> False | Some rq \<Rightarrow> rq_finished rq)"

definition unmarked :: "stream \<Rightarrow> bool" where
  "unmarked s \<longleftrightarrow>
     (case s_request s of
        None \<Rightarrow> True
      | Some rq \<Rightarrow> \<not> rq_stream_final rq \<and> \<not> rq_finished rq \<and>
          list_all (\<lambda>tx. \<not> tx_final tx) (rq_sent rq))"

definition live :: "stream \<Rightarrow> bool" where
  "live s \<longleftrightarrow>
     unmarked s \<and> (case s_request s of None \<Rightarrow> False | Some rq \<Rightarrow> \<not> rq_invalid rq)"

text \<open>
  The two bookkeeping facts every call with a non-negative read size keeps, and the link
  between the object and the session \<^verbatim>\<open>start\<close> creates for it.
\<close>

definition consistent :: "stream \<Rightarrow> bool" where
  "consistent s \<longleftrightarrow>
     s_buffer_size s = int (length (s_buffer s)) \<and>
     s_read s = int (length (concat (s_returned s)))"

definition linked :: "stream \<Rightarrow> bool" where
  "linked s \<longleftrightarrow>
     (case s_request s of None \<Rightarrow> True | Some rq \<Rightarrow> rq_chunk_size rq = s_chunk_size s)"

section \<open>Properties\<close>

subsection \<open>One call of the library, one round of the loop\<close>

lemma read_fst: "fst (read s n) = slice_to (s_buffer s) (min n (s_buffer_size s))"
  by (simp add: read_def Let_def)

lemma read_snd:
  "snd (read s n) =
     s\<lparr>s_buffer := slice_from (s_buffer s) (min n (s_buffer_size s)),
       s_read := s_read s + min n (s_buffer_size s),
       s_buffer_size := s_buffer_size s - min n (s_buffer_size s),
       s_returned := s_returned s @ [slice_to (s_buffer s) (min n (s_buffer_size s))]\<rparr>"
  by (simp add: read_def Let_def)

lemma transmit_None:
  "s_request s = None \<Longrightarrow> transmit_next_chunk rd tf env s = (Inl AttributeError, s)"
  by (simp add: transmit_next_chunk_def)

lemma transmit_dead:
  "s_request s = Some rq \<Longrightarrow> rq_finished rq \<or> rq_invalid rq \<Longrightarrow>
   transmit_next_chunk rd tf env s = (Inl ValueError, s)"
  by (simp add: transmit_next_chunk_def)

lemma transmit_Some:
  "s_request s = Some rq \<Longrightarrow> \<not> rq_finished rq \<Longrightarrow> \<not> rq_invalid rq \<Longrightarrow>
   transmit_next_chunk rd tf env s =
     (raise_of (env (rq_calls rq)),
      (snd (rd s (rq_chunk_size rq)))\<lparr>s_request := Some (rq\<lparr>
          rq_invalid := (env (rq_calls rq) = Rejected),
          rq_finished := (env (rq_calls rq) = Accepted \<and>
             (rq_stream_final rq \<or> int (length (fst (rd s (rq_chunk_size rq)))) < rq_chunk_size rq)),
          rq_sent := rq_sent rq @
            [\<lparr>tx_start = tf s, tx_payload = fst (rd s (rq_chunk_size rq)),
              tx_final = (rq_stream_final rq \<or>
                 int (length (fst (rd s (rq_chunk_size rq)))) < rq_chunk_size rq)\<rparr>],
          rq_calls := Suc (rq_calls rq)\<rparr>)\<rparr>)"
  by (simp add: transmit_next_chunk_def Let_def)

lemma recover_None: "s_request s = None \<Longrightarrow> recover env s = (Inl AttributeError, s)"
  by (simp add: recover_def)

lemma recover_Some:
  "s_request s = Some rq \<Longrightarrow>
   recover env s =
     (case env (rq_calls rq) of Accepted \<Rightarrow> Inl AttributeError
        | Rejected \<Rightarrow> Inl InvalidResponse | Broken \<Rightarrow> Inl TransportError,
      s\<lparr>s_request := Some (rq\<lparr>rq_recovers := Suc (rq_recovers rq),
            rq_calls := Suc (rq_calls rq)\<rparr>)\<rparr>)"
  by (simp add: recover_def)

text \<open>For a stream of the repository \<^verbatim>\<open>recover\<close> always raises.\<close>

lemma recover_raises: "\<exists>e. fst (recover env s) = Inl e"
  by (simp add: recover_def split: option.splits response.splits)

text \<open>Partial correctness of the loop: an invariant of one transmission and of one
  recovery holds when the loop returns, and a normal return means the buffer is below one chunk.\<close>

lemma write_loop_invariant:
  assumes ret: "write_loop env s = Some (r, s')"
    and init: "I s"
    and tx: "\<And>t. I t \<Longrightarrow> s_chunk_size t \<le> s_buffer_size t \<Longrightarrow>
                I (snd (transmit_next_chunk read tell env t))"
    and rc: "\<And>t. I t \<Longrightarrow> I (snd (recover env t))"
  shows "I s' \<and> (r = Inr () \<longrightarrow> s_buffer_size s' < s_chunk_size s')"
proof -
  let ?Q = "\<lambda>e t y. e = env \<longrightarrow> I t \<longrightarrow>
              I (snd y) \<and> (fst y = Inr () \<longrightarrow> s_buffer_size (snd y) < s_chunk_size (snd y))"
  have "?Q env s (r, s')"
  proof (rule write_loop.raw_induct[where P = ?Q, OF _ ret])
    fix loop e t y
    assume IH: "\<And>e t y. loop e t = Some y \<Longrightarrow> ?Q e t y"
      and body: "(if s_chunk_size t \<le> s_buffer_size t
          then case transmit_next_chunk read tell e t of
               (Inl InvalidResponse, s1) \<Rightarrow>
                 (case recover e s1 of (Inl x, s2) \<Rightarrow> Some (Inl x, s2)
                  | (Inr u, s2) \<Rightarrow> loop e s2)
               | (Inl TransportError, s1) \<Rightarrow> Some (Inl TransportError, s1)
               | (Inl AttributeError, s1) \<Rightarrow> Some (Inl AttributeError, s1)
               | (Inl ValueError, s1) \<Rightarrow> Some (Inl ValueError, s1)
               | (Inr u, s1) \<Rightarrow> loop e s1
          else Some (Inr (), t)) = Some y"
    show "?Q e t y"
    proof (intro impI)
      assume e: "e = env" and It: "I t"
      show "I (snd y) \<and> (fst y = Inr () \<longrightarrow> s_buffer_size (snd y) < s_chunk_size (snd y))"
      proof (cases "s_chunk_size t \<le> s_buffer_size t")
        case False
        with body It show ?thesis by auto
      next
        case True
        obtain a s1 where t1: "transmit_next_chunk read tell env t = (a, s1)"
          by (cases "transmit_next_chunk read tell env t")
        have I1: "I s1" using t1 tx[OF It True] by simp
        obtain b s2 where rcv: "recover env s1 = (b, s2)" by (cases "recover env s1")
        have I2: "I s2" using rcv rc[OF I1] by simp
        show ?thesis
        proof (cases a)
          case (Inr u)
          then have "loop env s1 = Some y" using body True t1 e by simp
          from IH[OF this] I1 show ?thesis by simp
        next
          case (Inl x)
          show ?thesis
          proof (cases "x = InvalidResponse")
            case False
            then have "y = (Inl x, s1)" using body True t1 e Inl by (cases x) auto
            with I1 show ?thesis by simp
          next
            case True
            show ?thesis
            proof (cases b)
              case (Inr u)
              then have "loop env s2 = Some y"
                using body \<open>s_chunk_size t \<le> s_buffer_size t\<close> t1 e Inl True rcv by simp
              from IH[OF this] I2 show ?thesis by simp
            next
              case (Inl z)
              then have "y = (Inl z, s2)"
                using body \<open>s_chunk_size t \<le> s_buffer_size t\<close> t1 e \<open>a = Inl x\<close> True rcv by auto
              with I2 show ?thesis by simp
            qed
          qed
        qed
      qed
    qed
  qed
  with init show ?thesis by simp
qed

text \<open>An invariant of the accepted transmissions holds when the loop returns normally:
  a round that is answered otherwise ends the loop with an exception.\<close>

lemma write_loop_success:
  assumes ret: "write_loop env s = Some (Inr (), s')"
    and init: "L s"
    and tx: "\<And>t. L t \<Longrightarrow> s_chunk_size t \<le> s_buffer_size t \<Longrightarrow>
                fst (transmit_next_chunk read tell env t) = Inr () \<Longrightarrow>
                L (snd (transmit_next_chunk read tell env t))"
  shows "L s'"
proof -
  let ?Q = "\<lambda>e t (y :: (error + unit) \<times> stream). e = env \<longrightarrow> fst y = Inr () \<longrightarrow> L t \<longrightarrow> L (snd y)"
  have "?Q env s (Inr (), s')"
  proof (rule write_loop.raw_induct[where P = ?Q, OF _ ret])
    fix loop e t y
    assume IH: "\<And>e t y. loop e t = Some y \<Longrightarrow> ?Q e t y"
      and body: "(if s_chunk_size t \<le> s_buffer_size t
          then case transmit_next_chunk read tell e t of
               (Inl InvalidResponse, s1) \<Rightarrow>
                 (case recover e s1 of (Inl x, s2) \<Rightarrow> Some (Inl x, s2)
                  | (Inr u, s2) \<Rightarrow> loop e s2)
               | (Inl TransportError, s1) \<Rightarrow> Some (Inl TransportError, s1)
               | (Inl AttributeError, s1) \<Rightarrow> Some (Inl AttributeError, s1)
               | (Inl ValueError, s1) \<Rightarrow> Some (Inl ValueError, s1)
               | (Inr u, s1) \<Rightarrow> loop e s1
          else Some (Inr (), t)) = Some y"
    show "?Q e t y"
    proof (intro impI)
      assume e: "e = env" and ok: "fst y = Inr ()" and Lt: "L t"
      show "L (snd y)"
      proof (cases "s_chunk_size t \<le> s_buffer_size t")
        case False
        with body Lt show ?thesis by auto
      next
        case True
        obtain a s1 where t1: "transmit_next_chunk read tell env t = (a, s1)"
          by (cases "transmit_next_chunk read tell env t")
        obtain b s2 where rcv: "recover env s1 = (b, s2)" by (cases "recover env s1")
        from recover_raises[of env s1] rcv obtain z where b: "b = Inl z" by auto
        show ?thesis
        proof (cases a)
          case (Inr u)
          then have l: "loop env s1 = Some y" using body True t1 e by simp
          have "L s1" using tx[OF Lt True] t1 Inr by simp
          with IH[OF l] ok show ?thesis by simp
        next
          case (Inl x)
          show ?thesis
          proof (cases "x = InvalidResponse")
            case False
            then have "y = (Inl x, s1)" using body True t1 e Inl by (cases x) auto
            with ok show ?thesis by simp
          next
            case True
            then have "y = (Inl z, s2)"
              using body \<open>s_chunk_size t \<le> s_buffer_size t\<close> t1 e Inl rcv b by auto
            with ok show ?thesis by simp
          qed
        qed
      qed
    qed
  qed
  with init show ?thesis by simp
qed

lemma write_loop_exit:
  "\<not> s_chunk_size s \<le> s_buffer_size s \<Longrightarrow> write_loop env s = Some (Inr (), s)"
  by (subst write_loop.simps) simp

lemma write_loop_unstarted:
  "s_chunk_size s \<le> s_buffer_size s \<Longrightarrow> s_request s = None \<Longrightarrow>
   write_loop env s = Some (Inl AttributeError, s)"
  by (subst write_loop.simps) (simp add: transmit_None)

lemma write_loop_dead:
  "s_chunk_size s \<le> s_buffer_size s \<Longrightarrow> s_request s = Some rq \<Longrightarrow>
   rq_finished rq \<or> rq_invalid rq \<Longrightarrow>
   write_loop env s = Some (Inl ValueError, s)"
  by (subst write_loop.simps) (simp add: transmit_dead)

lemma write_loop_step:
  assumes "s_chunk_size s \<le> s_buffer_size s" and "s_request s = Some rq"
    and "\<not> rq_finished rq" and "\<not> rq_invalid rq"
  shows "write_loop env s =
     (let s1 = snd (transmit_next_chunk read tell env s); s2 = snd (recover env s1)
      in case env (rq_calls rq) of
           Accepted \<Rightarrow> write_loop env s1
         | Broken \<Rightarrow> Some (Inl TransportError, s1)
         | Rejected \<Rightarrow>
             (case env (Suc (rq_calls rq)) of
                Accepted \<Rightarrow> Some (Inl AttributeError, s2)
              | Rejected \<Rightarrow> Some (Inl InvalidResponse, s2)
              | Broken \<Rightarrow> Some (Inl TransportError, s2)))"
  using assms
  by (subst write_loop.simps)
     (simp add: transmit_Some recover_Some raise_of_def Let_def split: response.splits)

lemma transmit_fields:
  assumes "s_request s = Some rq" and "\<not> rq_finished rq" and "\<not> rq_invalid rq"
  shows "s_buffer_size (snd (transmit_next_chunk read tell env s)) =
           s_buffer_size s - min (rq_chunk_size rq) (s_buffer_size s)"
    and "s_chunk_size (snd (transmit_next_chunk read tell env s)) = s_chunk_size s"
    and "s_buffer (snd (transmit_next_chunk read tell env s)) =
           slice_from (s_buffer s) (min (rq_chunk_size rq) (s_buffer_size s))"
    and "s_read (snd (transmit_next_chunk read tell env s)) =
           s_read s + min (rq_chunk_size rq) (s_buffer_size s)"
    and "s_returned (snd (transmit_next_chunk read tell env s)) =
           s_returned s @ [slice_to (s_buffer s) (min (rq_chunk_size rq) (s_buffer_size s))]"
    and "s_request (snd (transmit_next_chunk read tell env s)) =
           Some (rq\<lparr>rq_invalid := (env (rq_calls rq) = Rejected),
             rq_finished := (env (rq_calls rq) = Accepted \<and> (rq_stream_final rq \<or>
               int (length (slice_to (s_buffer s) (min (rq_chunk_size rq) (s_buffer_size s))))
                 < rq_chunk_size rq)),
             rq_sent := rq_sent rq @
             [\<lparr>tx_start = s_read s,
               tx_payload = slice_to (s_buffer s) (min (rq_chunk_size rq) (s_buffer_size s)),
               tx_final = (rq_stream_final rq \<or>
               int (length (slice_to (s_buffer s) (min (rq_chunk_size rq) (s_buffer_size s))))
                 < rq_chunk_size rq)\<rparr>],
             rq_calls := Suc (rq_calls rq)\<rparr>)"
  using assms by (simp_all add: transmit_Some read_fst read_snd tell_def)

lemma recover_fields:
  shows "s_buffer_size (snd (recover env s)) = s_buffer_size s"
    and "s_chunk_size (snd (recover env s)) = s_chunk_size s"
    and "s_buffer (snd (recover env s)) = s_buffer s"
    and "s_read (snd (recover env s)) = s_read s"
    and "s_returned (snd (recover env s)) = s_returned s"
    and "s_request (snd (recover env s)) =
           map_option (\<lambda>rq. rq\<lparr>rq_recovers := Suc (rq_recovers rq),
                                rq_calls := Suc (rq_calls rq)\<rparr>) (s_request s)"
  by (simp_all add: recover_def split: option.splits)

lemma write_loop_returns:
  "0 < s_chunk_size s \<Longrightarrow> linked s \<Longrightarrow> \<exists>y. write_loop env s = Some y"
proof (induction "nat (s_buffer_size s)" arbitrary: s rule: less_induct)
  case less
  show ?case
  proof (cases "s_chunk_size s \<le> s_buffer_size s")
    case False
    then show ?thesis by (simp add: write_loop_exit)
  next
    case True
    show ?thesis
    proof (cases "s_request s")
      case None
      with True show ?thesis by (simp add: write_loop_unstarted)
    next
      case (Some rq)
      show ?thesis
      proof (cases "rq_finished rq \<or> rq_invalid rq")
        case True
        from write_loop_dead[OF \<open>s_chunk_size s \<le> s_buffer_size s\<close> Some True]
        show ?thesis by simp
      next
        case False
        then have ok: "\<not> rq_finished rq" "\<not> rq_invalid rq" by simp_all
        define s1 where "s1 = snd (transmit_next_chunk read tell env s)"
        have cs: "rq_chunk_size rq = s_chunk_size s"
          using less.prems(2) Some by (simp add: linked_def)
        have b1: "s_buffer_size s1 = s_buffer_size s - s_chunk_size s"
          using True cs by (simp add: s1_def transmit_fields[OF Some ok])
        have c1: "s_chunk_size s1 = s_chunk_size s"
          by (simp add: s1_def transmit_fields[OF Some ok])
        have l1: "linked s1" using cs by (simp add: linked_def s1_def transmit_fields[OF Some ok])
        have m1: "nat (s_buffer_size s1) < nat (s_buffer_size s)"
          using b1 True less.prems(1) by simp
        have r1: "\<exists>y. write_loop env s1 = Some y"
          using less.hyps[OF m1] c1 l1 less.prems(1) by simp
        show ?thesis
          using r1 unfolding write_loop_step[OF True Some ok] s1_def[symmetric] Let_def
          by (simp split: response.splits)
      qed
    qed
  qed
qed

subsection \<open>The two classes\<close>

lemma read_main_eq: "read_main = read"
  by (simp add: fun_eq_iff read_main_def read_def)

lemma tell_main_eq: "tell_main = tell"
  by (simp add: fun_eq_iff tell_main_def tell_def)

lemma write_loop_main_le:
  assumes "write_loop_main env s = Some y"
  shows "write_loop env s = Some y"
proof (rule write_loop_main.raw_induct[where P = "\<lambda>e t y. write_loop e t = Some y", OF _ assms])
  fix loop e t y
  assume IH: "\<And>e t y. loop e t = Some y \<Longrightarrow> write_loop e t = Some y"
    and body: "(if s_chunk_size t \<le> s_buffer_size t
          then case transmit_next_chunk read_main tell_main e t of
               (Inl InvalidResponse, s1) \<Rightarrow>
                 (case recover e s1 of (Inl x, s2) \<Rightarrow> Some (Inl x, s2)
                  | (Inr u, s2) \<Rightarrow> loop e s2)
               | (Inl TransportError, s1) \<Rightarrow> Some (Inl TransportError, s1)
               | (Inl AttributeError, s1) \<Rightarrow> Some (Inl AttributeError, s1)
               | (Inl ValueError, s1) \<Rightarrow> Some (Inl ValueError, s1)
               | (Inr u, s1) \<Rightarrow> loop e s1
          else Some (Inr (), t)) = Some y"
  show "write_loop e t = Some y"
    using body IH
    by (subst write_loop.simps)
       (auto simp: read_main_eq tell_main_eq split: if_splits prod.splits sum.splits error.splits)
qed

lemma write_loop_le_main:
  assumes "write_loop env s = Some y"
  shows "write_loop_main env s = Some y"
proof (rule write_loop.raw_induct[where P = "\<lambda>e t y. write_loop_main e t = Some y", OF _ assms])
  fix loop e t y
  assume IH: "\<And>e t y. loop e t = Some y \<Longrightarrow> write_loop_main e t = Some y"
    and body: "(if s_chunk_size t \<le> s_buffer_size t
          then case transmit_next_chunk read tell e t of
               (Inl InvalidResponse, s1) \<Rightarrow>
                 (case recover e s1 of (Inl x, s2) \<Rightarrow> Some (Inl x, s2)
                  | (Inr u, s2) \<Rightarrow> loop e s2)
               | (Inl TransportError, s1) \<Rightarrow> Some (Inl TransportError, s1)
               | (Inl AttributeError, s1) \<Rightarrow> Some (Inl AttributeError, s1)
               | (Inl ValueError, s1) \<Rightarrow> Some (Inl ValueError, s1)
               | (Inr u, s1) \<Rightarrow> loop e s1
          else Some (Inr (), t)) = Some y"
  show "write_loop_main e t = Some y"
    using body IH
    by (subst write_loop_main.simps)
       (auto simp: read_main_eq tell_main_eq split: if_splits prod.splits sum.splits error.splits)
qed

lemma write_loop_main_eq: "write_loop_main env s = write_loop env s"
proof (cases "write_loop_main env s")
  case None
  then show ?thesis using write_loop_le_main[of env s] by (cases "write_loop env s") auto
next
  case (Some y)
  then show ?thesis using write_loop_main_le[of env s y] by simp
qed


subsection \<open>What one call keeps\<close>

lemma slice_split:
  "0 \<le> n \<Longrightarrow> slice_to b n @ slice_from b n = b"
  by (simp add: slice_to_def slice_from_def)

lemma slice_to_length:
  "0 \<le> n \<Longrightarrow> n \<le> int (length b) \<Longrightarrow> int (length (slice_to b n)) = n"
  by (simp add: slice_to_def)

lemma slice_from_length:
  "0 \<le> n \<Longrightarrow> n \<le> int (length b) \<Longrightarrow> int (length (slice_from b n)) = int (length b) - n"
  by (simp add: slice_from_def)

lemma read_sound:
  assumes "consistent s" and "0 \<le> n"
  shows "consistent (snd (read s n))"
    and "concat (s_returned (snd (read s n))) @ s_buffer (snd (read s n)) =
           concat (s_returned s) @ s_buffer s"
    and "s_read s \<le> s_read (snd (read s n))"
    and "fst (read s n) @ s_buffer (snd (read s n)) = s_buffer s"
    and "int (length (fst (read s n))) = min n (s_buffer_size s)"
proof -
  let ?k = "min n (s_buffer_size s)"
  have k: "0 \<le> ?k" "?k \<le> int (length (s_buffer s))"
    using assms by (simp_all add: consistent_def)
  show "consistent (snd (read s n))"
    using assms(1) slice_to_length[OF k] slice_from_length[OF k]
    by (simp add: consistent_def read_snd)
  show "concat (s_returned (snd (read s n))) @ s_buffer (snd (read s n)) =
           concat (s_returned s) @ s_buffer s"
    using slice_split[OF k(1)] by (simp add: read_snd)
  show "s_read s \<le> s_read (snd (read s n))"
    using k(1) by (simp add: read_snd)
  show "fst (read s n) @ s_buffer (snd (read s n)) = s_buffer s"
    using slice_split[OF k(1)] by (simp add: read_snd read_fst)
  show "int (length (fst (read s n))) = min n (s_buffer_size s)"
    using slice_to_length[OF k] by (simp add: read_fst)
qed

lemma read_keeps:
  shows "s_chunk_size (snd (read s n)) = s_chunk_size s"
    and "s_request (snd (read s n)) = s_request s"
    and "s_read (snd (read s n)) + s_buffer_size (snd (read s n)) = s_read s + s_buffer_size s"
    and "0 \<le> s_buffer_size s \<Longrightarrow> 0 \<le> s_buffer_size (snd (read s n))"
  by (simp_all add: read_snd)

text \<open>A transmission either leaves the object as it is and raises, or reads one window.\<close>

lemma transmit_cases:
  obtains (refused) "snd (transmit_next_chunk read tell env s) = s"
      "fst (transmit_next_chunk read tell env s) = Inl AttributeError \<or>
       fst (transmit_next_chunk read tell env s) = Inl ValueError"
    | (sent) rq where "s_request s = Some rq" "\<not> rq_finished rq" "\<not> rq_invalid rq"
proof (cases "s_request s")
  case None
  then show ?thesis using refused by (simp add: transmit_None)
next
  case (Some rq)
  show ?thesis
  proof (cases "rq_finished rq \<or> rq_invalid rq")
    case True
    from transmit_dead[OF Some True] show ?thesis using refused by simp
  next
    case False
    with Some sent show ?thesis by simp
  qed
qed

lemma transmit_as_read:
  "s_request s = Some rq \<Longrightarrow> \<not> rq_finished rq \<Longrightarrow> \<not> rq_invalid rq \<Longrightarrow>
   snd (transmit_next_chunk read tell env s) =
     (snd (read s (rq_chunk_size rq)))\<lparr>s_request := Some (rq\<lparr>
          rq_invalid := (env (rq_calls rq) = Rejected),
          rq_finished := (env (rq_calls rq) = Accepted \<and>
             (rq_stream_final rq \<or> int (length (fst (read s (rq_chunk_size rq)))) < rq_chunk_size rq)),
          rq_sent := rq_sent rq @
            [\<lparr>tx_start = tell s, tx_payload = fst (read s (rq_chunk_size rq)),
              tx_final = (rq_stream_final rq \<or>
                 int (length (fst (read s (rq_chunk_size rq)))) < rq_chunk_size rq)\<rparr>],
          rq_calls := Suc (rq_calls rq)\<rparr>)\<rparr>"
  by (simp add: transmit_Some)

lemma transmit_keeps:
  shows "s_chunk_size (snd (transmit_next_chunk read tell env s)) = s_chunk_size s"
    and "s_read (snd (transmit_next_chunk read tell env s))
           + s_buffer_size (snd (transmit_next_chunk read tell env s))
         = s_read s + s_buffer_size s"
    and "0 \<le> s_buffer_size s \<Longrightarrow> 0 \<le> s_buffer_size (snd (transmit_next_chunk read tell env s))"
    and "linked s \<Longrightarrow> linked (snd (transmit_next_chunk read tell env s))"
    and "(s_request (snd (transmit_next_chunk read tell env s)) = None) = (s_request s = None)"
  by (cases rule: transmit_cases[of env s];
      simp add: transmit_as_read read_snd linked_def)+

lemma recover_keeps:
  shows "linked s \<Longrightarrow> linked (snd (recover env s))"
    and "consistent s \<Longrightarrow> consistent (snd (recover env s))"
    and "sent (snd (recover env s)) = sent s"
    and "handed (snd (recover env s)) = handed s"
    and "(s_request (snd (recover env s)) = None) = (s_request s = None)"
  by (cases "s_request s"; simp add: recover_None recover_Some linked_def consistent_def sent_def handed_def)+

lemma transmit_sound:
  assumes "consistent s" and "linked s" and "0 \<le> s_chunk_size s"
  shows "consistent (snd (transmit_next_chunk read tell env s))"
    and "concat (s_returned (snd (transmit_next_chunk read tell env s)))
           @ s_buffer (snd (transmit_next_chunk read tell env s)) =
         concat (s_returned s) @ s_buffer s"
    and "s_read s \<le> s_read (snd (transmit_next_chunk read tell env s))"
    and "handed (snd (transmit_next_chunk read tell env s))
           @ s_buffer (snd (transmit_next_chunk read tell env s)) =
         handed s @ s_buffer s"
proof -
  let ?t = "snd (transmit_next_chunk read tell env s)"
  have "consistent ?t \<and> concat (s_returned ?t) @ s_buffer ?t = concat (s_returned s) @ s_buffer s \<and>
        s_read s \<le> s_read ?t \<and> handed ?t @ s_buffer ?t = handed s @ s_buffer s"
  proof (cases rule: transmit_cases[of env s])
    case refused
    with assms(1) show ?thesis by simp
  next
    case (sent rq)
    have n: "0 \<le> rq_chunk_size rq" using assms(2,3) sent(1) by (simp add: linked_def)
    note r = read_sound[OF assms(1) n]
    note e = transmit_as_read[OF sent, of env]
    have "consistent ?t" using r(1) by (simp add: e consistent_def)
    moreover have "concat (s_returned ?t) @ s_buffer ?t = concat (s_returned s) @ s_buffer s"
      using r(2) by (simp add: e)
    moreover have "s_read s \<le> s_read ?t" using r(3) by (simp add: e)
    moreover have "handed ?t @ s_buffer ?t = handed s @ s_buffer s"
      using r(4) by (simp add: e handed_def sent_def sent(1))
    ultimately show ?thesis by blast
  qed
  then show "consistent ?t"
    and "concat (s_returned ?t) @ s_buffer ?t = concat (s_returned s) @ s_buffer s"
    and "s_read s \<le> s_read ?t"
    and "handed ?t @ s_buffer ?t = handed s @ s_buffer s"
    by simp_all
qed

subsection \<open>What a call of write keeps\<close>

lemma linked_push:
  "linked (s\<lparr>s_buffer_size := a, s_buffer := b\<rparr>) = linked s"
  by (simp add: linked_def split: option.splits)

lemma write_data_split:
  assumes "write_data env s d = Some (r, s')"
  shows "\<exists>r0. write_loop env (s\<lparr>s_buffer_size := s_buffer_size s + int (length d),
                                  s_buffer := s_buffer s @ d\<rparr>) = Some (r0, s') \<and>
              (case r0 of Inl e \<Rightarrow> r = Inl e | Inr u \<Rightarrow> r = Inr (int (length d)))"
  using assms
  by (auto simp: write_data_def Let_def split: option.splits prod.splits sum.splits)

lemma write_data_returns:
  assumes "0 < s_chunk_size s" and "linked s"
  shows "\<exists>y. write_data env s d = Some y"
proof -
  let ?p = "s\<lparr>s_buffer_size := s_buffer_size s + int (length d), s_buffer := s_buffer s @ d\<rparr>"
  have "0 < s_chunk_size ?p" "linked ?p" using assms by (simp_all add: linked_push)
  from write_loop_returns[OF this] obtain y where "write_loop env ?p = Some y" by blast
  then show ?thesis
    by (cases y) (auto simp: write_data_def Let_def split: sum.splits)
qed

lemma write_data_keeps:
  assumes "write_data env s d = Some (r, s')"
  shows "s_chunk_size s' = s_chunk_size s"
    and "s_read s' + s_buffer_size s' = s_read s + s_buffer_size s + int (length d)"
    and "linked s \<Longrightarrow> linked s'"
    and "0 \<le> s_buffer_size s \<Longrightarrow> 0 \<le> s_buffer_size s'"
    and "(s_request s' = None) = (s_request s = None)"
    and "\<And>n. r = Inr n \<Longrightarrow> s_buffer_size s' < s_chunk_size s' \<and> n = int (length d)"
proof -
  let ?p = "s\<lparr>s_buffer_size := s_buffer_size s + int (length d), s_buffer := s_buffer s @ d\<rparr>"
  from write_data_split[OF assms] obtain r0 where
    loop: "write_loop env ?p = Some (r0, s')" and
    r0: "case r0 of Inl e \<Rightarrow> r = Inl e | Inr u \<Rightarrow> r = Inr (int (length d))"
    by blast
  let ?I = "\<lambda>t. s_chunk_size t = s_chunk_size s \<and>
                 s_read t + s_buffer_size t = s_read s + s_buffer_size s + int (length d) \<and>
                 (linked s \<longrightarrow> linked t) \<and>
                 (0 \<le> s_buffer_size s \<longrightarrow> 0 \<le> s_buffer_size t) \<and>
                 (s_request t = None) = (s_request s = None)"
  have "?I s' \<and> (r0 = Inr () \<longrightarrow> s_buffer_size s' < s_chunk_size s')"
  proof (rule write_loop_invariant[where I = ?I, OF loop])
    show "?I ?p" by (simp add: linked_push)
  next
    fix t assume "?I t"
    then show "?I (snd (transmit_next_chunk read tell env t))"
      by (simp add: transmit_keeps)
  next
    fix t assume "?I t"
    then show "?I (snd (recover env t))"
      by (simp add: recover_keeps recover_fields)
  qed
  then have I: "?I s'" and ex: "r0 = Inr () \<longrightarrow> s_buffer_size s' < s_chunk_size s'" by blast+
  from I show "s_chunk_size s' = s_chunk_size s"
    and "s_read s' + s_buffer_size s' = s_read s + s_buffer_size s + int (length d)"
    and "linked s \<Longrightarrow> linked s'"
    and "0 \<le> s_buffer_size s \<Longrightarrow> 0 \<le> s_buffer_size s'"
    and "(s_request s' = None) = (s_request s = None)"
    by simp_all
  show "\<And>n. r = Inr n \<Longrightarrow> s_buffer_size s' < s_chunk_size s' \<and> n = int (length d)"
    using r0 ex by (cases r0) auto
qed

lemma write_data_sound:
  assumes ret: "write_data env s d = Some (r, s')"
    and "consistent s" and "linked s" and "0 \<le> s_chunk_size s"
  shows "consistent s'"
    and "concat (s_returned s') @ s_buffer s' = concat (s_returned s) @ s_buffer s @ d"
    and "s_read s \<le> s_read s'"
    and "s_request s \<noteq> None \<Longrightarrow> handed s' @ s_buffer s' = handed s @ s_buffer s @ d"
proof -
  let ?p = "s\<lparr>s_buffer_size := s_buffer_size s + int (length d), s_buffer := s_buffer s @ d\<rparr>"
  from write_data_split[OF ret] obtain r0 where
    loop: "write_loop env ?p = Some (r0, s')" by blast
  let ?I = "\<lambda>t. consistent t \<and> linked t \<and> s_chunk_size t = s_chunk_size s \<and>
                 concat (s_returned t) @ s_buffer t = concat (s_returned s) @ s_buffer s @ d \<and>
                 s_read s \<le> s_read t \<and>
                 (s_request t = None) = (s_request s = None) \<and>
                 (s_request s \<noteq> None \<longrightarrow> handed t @ s_buffer t = handed s @ s_buffer s @ d)"
  have "?I s' \<and> (r0 = Inr () \<longrightarrow> s_buffer_size s' < s_chunk_size s')"
  proof (rule write_loop_invariant[where I = ?I, OF loop])
    show "?I ?p" using assms(2,3) by (simp add: linked_push consistent_def handed_def sent_def)
  next
    fix t assume I: "?I t"
    then have c: "consistent t" and l: "linked t" and z: "0 \<le> s_chunk_size t"
      using assms(4) by simp_all
    show "?I (snd (transmit_next_chunk read tell env t))"
      using I transmit_sound[OF c l z, where env = env]
          transmit_keeps(1,4,5)[where env = env and s = t]
      by simp
  next
    fix t assume I: "?I t"
    then show "?I (snd (recover env t))"
      by (simp add: recover_keeps recover_fields)
  qed
  then show "consistent s'"
    and "concat (s_returned s') @ s_buffer s' = concat (s_returned s) @ s_buffer s @ d"
    and "s_read s \<le> s_read s'"
    and "s_request s \<noteq> None \<Longrightarrow> handed s' @ s_buffer s' = handed s @ s_buffer s @ d"
    by simp_all
qed

subsection \<open>What a sequence of calls keeps\<close>

lemma init_sound:
  "consistent (init b nm ct cs)" "linked (init b nm ct cs)"
  "s_chunk_size (init b nm ct cs) = cs" "s_read (init b nm ct cs) = 0"
  "s_buffer_size (init b nm ct cs) = 0" "s_buffer (init b nm ct cs) = []"
  "s_returned (init b nm ct cs) = []" "s_request (init b nm ct cs) = None"
  by (simp_all add: init_def consistent_def linked_def)

lemma start_keeps:
  shows "s_chunk_size (snd (start env s)) = s_chunk_size s"
    and "s_buffer (snd (start env s)) = s_buffer s"
    and "s_buffer_size (snd (start env s)) = s_buffer_size s"
    and "s_read (snd (start env s)) = s_read s"
    and "s_returned (snd (start env s)) = s_returned s"
    and "linked (snd (start env s))"
    and "consistent (snd (start env s)) = consistent s"
    and "s_request (snd (start env s)) \<noteq> None"
    and "sent (snd (start env s)) = []"
    and "recovers (snd (start env s)) = 0"
    and "fst (start env s) = raise_of (env 0)"
  by (simp_all add: start_def initiate_def ResumableUpload_def Let_def linked_def
        consistent_def sent_def recovers_def)

lemma stop_keeps:
  shows "s_chunk_size (snd (stop env s)) = s_chunk_size s"
    and "s_read (snd (stop env s)) + s_buffer_size (snd (stop env s)) = s_read s + s_buffer_size s"
    and "0 \<le> s_buffer_size s \<Longrightarrow> 0 \<le> s_buffer_size (snd (stop env s))"
    and "linked s \<Longrightarrow> linked (snd (stop env s))"
  by (simp_all add: stop_def transmit_keeps)

lemma read_linked: "linked (snd (read s n)) = linked s"
  by (simp add: linked_def read_snd split: option.splits)

lemma run_keeps:
  assumes "run env s ops = Some s'"
  shows "s_chunk_size s' = s_chunk_size s \<and>
         s_read s' + s_buffer_size s' = s_read s + s_buffer_size s + int (length (written ops)) \<and>
         (linked s \<longrightarrow> linked s') \<and>
         (0 \<le> s_buffer_size s \<longrightarrow> 0 \<le> s_buffer_size s')"
  using assms
proof (induction ops arbitrary: s)
  case Nil
  then show ?case by simp
next
  case (Cons x ops)
  show ?case
  proof (cases x)
    case Start
    with Cons.prems have "run env (snd (start env s)) ops = Some s'" by simp
    from Cons.IH[OF this] Start show ?thesis by (simp add: start_keeps)
  next
    case (Write d)
    with Cons.prems obtain r s1 where w: "write_data env s d = Some (r, s1)"
      and rest: "run env s1 ops = Some s'"
      by (auto split: option.splits)
    from Cons.IH[OF rest] write_data_keeps(1-4)[OF w] Write show ?thesis by simp
  next
    case (Read n)
    with Cons.prems have "run env (snd (read s n)) ops = Some s'" by simp
    from Cons.IH[OF this] Read show ?thesis by (simp add: read_keeps read_linked)
  next
    case Tell
    with Cons.prems Cons.IH[of s] show ?thesis by simp
  next
    case Stop
    with Cons.prems have "run env (snd (stop env s)) ops = Some s'" by simp
    from Cons.IH[OF this] stop_keeps[where env = env and s = s] Stop show ?thesis by simp
  qed
qed

lemma run_sound:
  assumes "run env s ops = Some s'" and "nonneg_reads ops"
    and "consistent s" and "linked s" and "0 \<le> s_chunk_size s"
  shows "consistent s' \<and>
         concat (s_returned s') @ s_buffer s' = concat (s_returned s) @ s_buffer s @ written ops \<and>
         s_read s \<le> s_read s'"
  using assms
proof (induction ops arbitrary: s)
  case Nil
  then show ?case by simp
next
  case (Cons x ops)
  show ?case
  proof (cases x)
    case Start
    with Cons.prems have "run env (snd (start env s)) ops = Some s'" by simp
    from Cons.IH[OF this] Cons.prems Start show ?thesis by (simp add: start_keeps)
  next
    case (Write d)
    with Cons.prems obtain r s1 where w: "write_data env s d = Some (r, s1)"
      and rest: "run env s1 ops = Some s'"
      by (auto split: option.splits)
    note k = write_data_keeps(1,3)[OF w]
    note snd = write_data_sound(1-3)[OF w Cons.prems(3,4,5)]
    from Cons.IH[OF rest] Cons.prems k snd Write show ?thesis by simp
  next
    case (Read n)
    with Cons.prems have r: "run env (snd (read s n)) ops = Some s'" and n: "0 \<le> n" by simp_all
    from Cons.IH[OF r] read_sound(1-3)[OF Cons.prems(3) n] Cons.prems Read show ?thesis
      by (simp add: read_keeps read_linked)
  next
    case Tell
    with Cons.prems Cons.IH[of s] show ?thesis by simp
  next
    case Stop
    with Cons.prems have r: "run env (snd (stop env s)) ops = Some s'" by simp
    from Cons.IH[OF r] transmit_sound(1-3)[OF Cons.prems(3,4,5), where env = env]
      stop_keeps[where env = env and s = s] Cons.prems Stop
    show ?thesis by (simp add: stop_def)
  qed
qed

lemma run_append:
  "run env s (xs @ ys) = (case run env s xs of None \<Rightarrow> None | Some t \<Rightarrow> run env t ys)"
proof (induction xs arbitrary: s)
  case Nil
  show ?case by simp
next
  case (Cons x xs)
  show ?case by (cases x) (simp_all add: Cons.IH split: option.splits)
qed

lemma nonneg_reads_append:
  "nonneg_reads (xs @ ys) = (nonneg_reads xs \<and> nonneg_reads ys)"
proof (induction xs)
  case Nil
  show ?case by simp
next
  case (Cons x xs)
  then show ?case by (cases x) simp_all
qed

text \<open>For a chunk size above zero every sequence of calls comes back.\<close>

lemma run_returns:
  assumes "0 < s_chunk_size s" and "linked s"
  shows "\<exists>s'. run env s ops = Some s'"
  using assms
proof (induction ops arbitrary: s)
  case Nil
  show ?case by simp
next
  case (Cons x ops)
  show ?case
  proof (cases x)
    case Start
    with Cons.IH[of "snd (start env s)"] Cons.prems show ?thesis by (simp add: start_keeps)
  next
    case (Write d)
    from write_data_returns[OF Cons.prems] obtain r s1 where w: "write_data env s d = Some (r, s1)"
      by fastforce
    from Cons.IH[of s1] write_data_keeps(1,3)[OF w] Cons.prems w Write show ?thesis by simp
  next
    case (Read n)
    with Cons.IH[of "snd (read s n)"] Cons.prems show ?thesis by (simp add: read_keeps read_linked)
  next
    case Tell
    with Cons.IH[of s] Cons.prems show ?thesis by simp
  next
    case Stop
    with Cons.IH[of "snd (stop env s)"] Cons.prems show ?thesis by (simp add: stop_keeps)
  qed
qed

subsection \<open>Running the model on concrete input\<close>

lemmas stream_eval =
  init_def start_def stop_def enter_def exit_scope_def initiate_def ResumableUpload_def
  raise_of_def transmit_next_chunk_def recover_def read_def tell_def slice_to_def
  slice_from_def write_data_def write_loop.simps with_stream_def sent_def recovers_def
  handed_def committed_def default_chunk_size_def Let_def

subsection \<open>A body of writes, and the release\<close>

lemma writes_returns:
  assumes "0 < s_chunk_size s" and "linked s"
  shows "\<exists>y. writes env s ds = Some y"
  using assms
proof (induction ds arbitrary: s)
  case Nil
  show ?case by simp
next
  case (Cons d ds)
  from write_data_returns[OF Cons.prems] obtain r s1 where w: "write_data env s d = Some (r, s1)"
    by fastforce
  show ?case
  proof (cases r)
    case (Inl e)
    with w show ?thesis by simp
  next
    case (Inr n)
    from Cons.IH[of s1] write_data_keeps(1,3)[OF w] Cons.prems
    obtain y where "writes env s1 ds = Some y" by auto
    with w Inr show ?thesis by simp
  qed
qed

lemma writes_sound:
  assumes "writes env s ds = Some (r, s')"
    and "consistent s" and "linked s" and "0 \<le> s_chunk_size s" and "s_request s \<noteq> None"
  shows "consistent s' \<and> linked s' \<and> s_chunk_size s' = s_chunk_size s \<and> s_request s' \<noteq> None \<and>
         (r = Inr () \<longrightarrow> handed s' @ s_buffer s' = handed s @ s_buffer s @ concat ds \<and>
                         (s_buffer_size s < s_chunk_size s \<longrightarrow> s_buffer_size s' < s_chunk_size s'))"
  using assms
proof (induction ds arbitrary: s)
  case Nil
  then show ?case by simp
next
  case (Cons d ds)
  from Cons.prems(1) obtain r1 s1 where w: "write_data env s d = Some (r1, s1)"
    by (auto split: option.splits)
  note k = write_data_keeps(1,3,5)[OF w]
  note sd = write_data_sound[OF w Cons.prems(2,3,4)]
  show ?case
  proof (cases r1)
    case (Inl e)
    with w Cons.prems(1) have "r = Inl e" "s' = s1" by simp_all
    with k sd(1) Cons.prems show ?thesis by simp
  next
    case (Inr n)
    with w Cons.prems(1) have rest: "writes env s1 ds = Some (r, s')" by simp
    have c1: "consistent s1" by (rule sd(1))
    have l1: "linked s1" using k Cons.prems(3) by simp
    have z1: "0 \<le> s_chunk_size s1" using k Cons.prems(4) by simp
    have q1: "s_request s1 \<noteq> None" using k Cons.prems(5) by simp
    have b1: "s_buffer_size s1 < s_chunk_size s1" using write_data_keeps(6)[OF w Inr] by simp
    have h1: "handed s1 @ s_buffer s1 @ concat ds = handed s @ s_buffer s @ concat (d # ds)"
      using sd(4)[OF Cons.prems(5)] by (simp flip: append_assoc)
    from Cons.IH[OF rest c1 l1 z1 q1] b1 have
      "consistent s' \<and> linked s' \<and> s_chunk_size s' = s_chunk_size s1 \<and> s_request s' \<noteq> None \<and>
       (r = Inr () \<longrightarrow> handed s' @ s_buffer s' = handed s1 @ s_buffer s1 @ concat ds \<and>
                       s_buffer_size s' < s_chunk_size s')"
      by blast
    then show ?thesis unfolding h1 k(1) by blast
  qed
qed

lemma start_live:
  shows "live (snd (start env s))" and "unmarked (snd (start env s))"
    and "\<not> committed (snd (start env s))"
  by (simp_all add: live_def unmarked_def committed_def start_def initiate_def
        ResumableUpload_def Let_def)

lemma live_request:
  assumes "live s"
  obtains rq where "s_request s = Some rq" "\<not> rq_finished rq" "\<not> rq_invalid rq"
    "\<not> rq_stream_final rq" "list_all (\<lambda>tx. \<not> tx_final tx) (rq_sent rq)"
  using assms by (cases "s_request s") (auto simp: live_def unmarked_def)

text \<open>In the loop a transmission takes a whole chunk, so it is not the final one.\<close>

lemma full_chunk:
  assumes "consistent s" and "0 \<le> c" and "c \<le> s_buffer_size s"
  shows "int (length (slice_to (s_buffer s) (min c (s_buffer_size s)))) = c"
  using assms by (simp add: consistent_def slice_to_def)

lemma transmit_unmarked:
  assumes "unmarked s" and "consistent s" and "linked s" and "0 \<le> s_chunk_size s"
    and "s_chunk_size s \<le> s_buffer_size s"
  shows "unmarked (snd (transmit_next_chunk read tell env s))"
proof (cases rule: transmit_cases[of env s])
  case refused
  with assms(1) show ?thesis by simp
next
  case (sent rq)
  have c: "rq_chunk_size rq = s_chunk_size s" using assms(3) sent(1) by (simp add: linked_def)
  have f: "int (length (slice_to (s_buffer s) (min (rq_chunk_size rq) (s_buffer_size s))))
             = rq_chunk_size rq"
    unfolding c by (rule full_chunk[OF assms(2,4,5)])
  from assms(1) sent(1) show ?thesis
    by (simp add: unmarked_def transmit_fields(6)[OF sent] f)
qed

lemma transmit_live:
  assumes "live s" and "consistent s" and "linked s" and "0 \<le> s_chunk_size s"
    and "s_chunk_size s \<le> s_buffer_size s"
    and "fst (transmit_next_chunk read tell env s) = Inr ()"
  shows "live (snd (transmit_next_chunk read tell env s))"
proof -
  from assms(1) obtain rq where rq: "s_request s = Some rq" "\<not> rq_finished rq" "\<not> rq_invalid rq"
    by (rule live_request)
  from assms(1) have u: "unmarked s" by (simp add: live_def)
  have "env (rq_calls rq) = Accepted"
    using assms(6) by (cases "env (rq_calls rq)") (simp_all add: transmit_Some[OF rq] raise_of_def)
  then have "\<not> rq_invalid (the (s_request (snd (transmit_next_chunk read tell env s))))"
    by (simp add: transmit_fields(6)[OF rq])
  with transmit_unmarked[OF u assms(2-5), of env] show ?thesis
    by (simp add: live_def transmit_fields(6)[OF rq])
qed

lemma recover_unmarked: "unmarked s \<Longrightarrow> unmarked (snd (recover env s))"
  by (cases "s_request s") (simp_all add: unmarked_def recover_fields)

lemma unmarked_push:
  "unmarked (s\<lparr>s_buffer_size := a, s_buffer := b\<rparr>) = unmarked s"
  "live (s\<lparr>s_buffer_size := a, s_buffer := b\<rparr>) = live s"
  by (simp_all add: unmarked_def live_def)

lemma consistent_push:
  "consistent s \<Longrightarrow>
   consistent (s\<lparr>s_buffer_size := s_buffer_size s + int (length d), s_buffer := s_buffer s @ d\<rparr>)"
  by (simp add: consistent_def)

lemma write_data_unmarked:
  assumes "write_data env s d = Some (r, s')" and "unmarked s"
    and "consistent s" and "linked s" and "0 \<le> s_chunk_size s"
  shows "unmarked s'"
proof -
  let ?p = "s\<lparr>s_buffer_size := s_buffer_size s + int (length d), s_buffer := s_buffer s @ d\<rparr>"
  from write_data_split[OF assms(1)] obtain r0 where
    loop: "write_loop env ?p = Some (r0, s')" by blast
  let ?I = "\<lambda>t. unmarked t \<and> consistent t \<and> linked t \<and> 0 \<le> s_chunk_size t"
  have "?I s' \<and> (r0 = Inr () \<longrightarrow> s_buffer_size s' < s_chunk_size s')"
  proof (rule write_loop_invariant[where I = ?I, OF loop])
    show "?I ?p" using assms(2-5) by (simp add: unmarked_push linked_push consistent_push)
  next
    fix t assume "?I t" and "s_chunk_size t \<le> s_buffer_size t"
    then show "?I (snd (transmit_next_chunk read tell env t))"
      by (simp add: transmit_unmarked transmit_sound(1) transmit_keeps)
  next
    fix t assume "?I t"
    then show "?I (snd (recover env t))"
      by (simp add: recover_unmarked recover_keeps recover_fields)
  qed
  then show ?thesis by simp
qed

lemma write_data_live:
  assumes "write_data env s d = Some (Inr n, s')" and "live s"
    and "consistent s" and "linked s" and "0 \<le> s_chunk_size s"
  shows "live s'"
proof -
  let ?p = "s\<lparr>s_buffer_size := s_buffer_size s + int (length d), s_buffer := s_buffer s @ d\<rparr>"
  from write_data_split[OF assms(1)] obtain r0 where
    l0: "write_loop env ?p = Some (r0, s')"
    and c0: "case r0 of Inl e \<Rightarrow> Inr n = (Inl e :: error + int) | Inr u \<Rightarrow> Inr n = (Inr (int (length d)) :: error + int)"
    by blast
  from c0 have "r0 = Inr ()" by (cases r0) simp_all
  with l0 have loop: "write_loop env ?p = Some (Inr (), s')" by simp
  let ?L = "\<lambda>t. live t \<and> consistent t \<and> linked t \<and> 0 \<le> s_chunk_size t"
  have "?L s'"
  proof (rule write_loop_success[where L = ?L, OF loop])
    show "?L ?p" using assms(2-5) by (simp add: unmarked_push linked_push consistent_push)
  next
    fix t assume "?L t" and "s_chunk_size t \<le> s_buffer_size t"
      and "fst (transmit_next_chunk read tell env t) = Inr ()"
    then show "?L (snd (transmit_next_chunk read tell env t))"
      by (simp add: transmit_live transmit_sound(1) transmit_keeps)
  qed
  then show ?thesis by simp
qed

lemma writes_unmarked:
  assumes "writes env s ds = Some (r, s')" and "unmarked s"
    and "consistent s" and "linked s" and "0 \<le> s_chunk_size s"
  shows "unmarked s'"
  using assms
proof (induction ds arbitrary: s)
  case Nil
  then show ?case by simp
next
  case (Cons d ds)
  from Cons.prems(1) obtain r1 s1 where w: "write_data env s d = Some (r1, s1)"
    by (auto split: option.splits)
  from write_data_unmarked[OF w Cons.prems(2-5)] have u1: "unmarked s1" .
  show ?case
  proof (cases r1)
    case (Inl e)
    with w Cons.prems(1) u1 show ?thesis by simp
  next
    case (Inr n)
    with w Cons.prems(1) have rest: "writes env s1 ds = Some (r, s')" by simp
    from write_data_sound(1)[OF w Cons.prems(3-5)] write_data_keeps(1,3)[OF w] Cons.prems(4,5)
    have "consistent s1" "linked s1" "0 \<le> s_chunk_size s1" by simp_all
    from Cons.IH[OF rest u1 this] show ?thesis .
  qed
qed

lemma writes_live:
  assumes "writes env s ds = Some (Inr (), s')" and "live s"
    and "consistent s" and "linked s" and "0 \<le> s_chunk_size s"
  shows "live s'"
  using assms
proof (induction ds arbitrary: s)
  case Nil
  then show ?case by simp
next
  case (Cons d ds)
  from Cons.prems(1) obtain r1 s1 where w: "write_data env s d = Some (r1, s1)"
    by (auto split: option.splits)
  show ?case
  proof (cases r1)
    case (Inl e)
    with w Cons.prems(1) show ?thesis by simp
  next
    case (Inr n)
    with w Cons.prems(1) have rest: "writes env s1 ds = Some (Inr (), s')" by simp
    from write_data_live[OF w[unfolded Inr] Cons.prems(2-5)] have l1: "live s1" .
    from write_data_sound(1)[OF w Cons.prems(3-5)] write_data_keeps(1,3)[OF w] Cons.prems(4,5)
    have "consistent s1" "linked s1" "0 \<le> s_chunk_size s1" by simp_all
    from Cons.IH[OF rest l1 this] show ?thesis .
  qed
qed

text \<open>
  \<^verbatim>\<open>stop\<close> on a session under way with less than one chunk buffered: one more
  transmission, of all that is buffered, and it is the final one.
\<close>

lemma stop_flushes:
  assumes "live s" and "consistent s" and "linked s" and "s_buffer_size s < s_chunk_size s"
  shows "s_buffer (snd (stop env s)) = []"
    and "\<exists>tx. sent (snd (stop env s)) = sent s @ [tx] \<and> tx_final tx \<and>
              tx_payload tx = s_buffer s \<and> tx_start tx = s_read s"
    and "handed (snd (stop env s)) = handed s @ s_buffer s"
    and "committed (snd (stop env s)) = (fst (stop env s) = Inr ())"
proof -
  from assms(1) obtain rq where rq: "s_request s = Some rq" "\<not> rq_finished rq" "\<not> rq_invalid rq"
    by (rule live_request)
  have m: "min (rq_chunk_size rq) (s_buffer_size s) = int (length (s_buffer s))"
    and lt: "int (length (s_buffer s)) < rq_chunk_size rq"
    using assms(2-4) rq(1) by (simp_all add: consistent_def linked_def)
  have p: "slice_to (s_buffer s) (int (length (s_buffer s))) = s_buffer s"
    by (simp add: slice_to_def)
  show "s_buffer (snd (stop env s)) = []"
    by (simp add: stop_def transmit_fields[OF rq] m slice_from_def)
  have s: "sent (snd (stop env s)) =
      sent s @ [\<lparr>tx_start = s_read s, tx_payload = s_buffer s, tx_final = True\<rparr>]"
    using lt by (simp add: stop_def sent_def transmit_fields(6)[OF rq] rq(1) m p)
  then show "\<exists>tx. sent (snd (stop env s)) = sent s @ [tx] \<and> tx_final tx \<and>
              tx_payload tx = s_buffer s \<and> tx_start tx = s_read s"
    by simp
  show "handed (snd (stop env s)) = handed s @ s_buffer s"
    by (simp add: handed_def s)
  show "committed (snd (stop env s)) = (fst (stop env s) = Inr ())"
    using lt
    by (cases "env (rq_calls rq)")
       (simp_all add: committed_def stop_def transmit_fields(6)[OF rq] transmit_Some[OF rq]
          read_fst m p raise_of_def)
qed

subsection \<open>How often the loop goes round\<close>




section \<open>The claims\<close>

text \<open>
  C1. Byte-exactness. For every chunk size above zero, every backend and every list of
  data: on a stream that \<^verbatim>\<open>__enter__\<close> has started, the writes come back; when all of
  them return, so that the scope is left normally, the windows the backend was handed
  by all transmissions, the one of \<^verbatim>\<open>stop\<close> included, are together exactly the data
  written, in order.
\<close>

theorem upload_is_byte_exact:
  assumes "0 < cs"
  shows "\<exists>r s2. writes env (snd (enter env (init bucket blob ct cs))) ds = Some (r, s2) \<and>
           (r = Inr () \<longrightarrow> handed (snd (exit_scope env None s2)) = concat ds)"
proof -
  define s1 where "s1 = snd (enter env (init bucket blob ct cs))"
  have c1: "consistent s1" and l1: "linked s1" and cs1: "s_chunk_size s1 = cs"
    and q1: "s_request s1 \<noteq> None" and h1: "handed s1 = []" and b1: "s_buffer s1 = []"
    and z1: "s_buffer_size s1 = 0" and v1: "live s1"
    by (simp_all add: s1_def enter_def start_keeps start_live init_sound handed_def)
  from writes_returns[of s1 env ds] cs1 l1 assms obtain r s2 where
    w: "writes env s1 ds = Some (r, s2)" by fastforce
  have "handed (snd (exit_scope env None s2)) = concat ds" if r: "r = Inr ()"
  proof -
    from writes_sound[OF w c1 l1 _ q1] cs1 assms r h1 b1 z1
    have c2: "consistent s2" and l2: "linked s2"
      and all: "handed s2 @ s_buffer s2 = concat ds"
      and lt: "s_buffer_size s2 < s_chunk_size s2"
      by simp_all
    from writes_live[OF w[unfolded r] v1 c1 l1] cs1 assms have v2: "live s2" by simp
    from stop_flushes(3)[OF v2 c2 l2 lt] all show ?thesis
      by (simp add: exit_scope_def)
  qed
  with w show ?thesis unfolding s1_def by blast
qed

theorem upload_is_byte_exact_witness:
  "\<exists>s2. writes (\<lambda>k. if k = 2 then Rejected else Accepted)
           (snd (enter (\<lambda>k. if k = 2 then Rejected else Accepted)
                  (init ''b'' ''o'' None default_chunk_size)))
           [replicate 262144 1, [], [2, 3]] = Some (Inr (), s2) \<and>
        handed (snd (exit_scope (\<lambda>k. if k = 2 then Rejected else Accepted) None s2))
          = replicate 262144 1 @ [2, 3] \<and>
        map tx_payload (sent (snd (exit_scope (\<lambda>k. if k = 2 then Rejected else Accepted) None s2)))
          = [replicate 262144 1, [2, 3]]"
proof -
  let ?env = "\<lambda>k::nat. if k = 2 then Rejected else Accepted"
  have pos: "0 < default_chunk_size" by (simp add: default_chunk_size_def)
  from upload_is_byte_exact[OF pos, of ?env "''b''" "''o''" None "[replicate 262144 1, [], [2, 3]]"]
  obtain r s2 where w: "writes ?env (snd (enter ?env (init ''b'' ''o'' None default_chunk_size)))
      [replicate 262144 1, [], [2, 3]] = Some (r, s2)"
    and h: "r = Inr () \<longrightarrow> handed (snd (exit_scope ?env None s2))
              = concat [replicate 262144 1, [], [2, 3]]"
    by auto
  from w have r: "r = Inr ()"
    and p: "map tx_payload (sent (snd (exit_scope ?env None s2))) = [replicate 262144 1, [2, 3]]"
    by (auto simp: stream_eval)
  from h r have "handed (snd (exit_scope ?env None s2)) = replicate 262144 1 @ [2, 3]" by simp
  with w r p show ?thesis by (intro exI[of _ s2]) simp
qed

text \<open>
  C2. In a session with a chunk size above zero that \<^verbatim>\<open>__enter__\<close> has started, no
  transmission made by a write is marked final and the object is not complete while the
  body runs. When the body returns, so that the scope is left normally, \<^verbatim>\<open>__exit__\<close>
  makes exactly one more transmission, the last of the session: it carries all bytes
  still buffered, it is the one transmission of the session that is marked final, and
  the object is complete exactly when the backend accepts it. When an exception is
  unwinding, \<^verbatim>\<open>__exit__\<close> transmits nothing, so no transmission of that session is
  final and the object stays incomplete.
\<close>

theorem final_chunk_on_normal_release:
  assumes "0 < cs"
    and "enter env (init bucket blob ct cs) = (Inr (), s1)"
    and "writes env s1 ds = Some (r, s2)"
  shows "list_all (\<lambda>tx. \<not> tx_final tx) (sent s2) \<and> \<not> committed s2 \<and>
         (r = Inr () \<longrightarrow>
            (\<exists>tx. sent (snd (exit_scope env None s2)) = sent s2 @ [tx] \<and> tx_final tx \<and>
                  tx_payload tx = s_buffer s2) \<and>
            length (filter tx_final (sent (snd (exit_scope env None s2)))) = 1 \<and>
            committed (snd (exit_scope env None s2)) = (fst (exit_scope env None s2) = Inr ())) \<and>
         (\<forall>e. sent (snd (exit_scope env (Some e) s2)) = sent s2 \<and>
              filter tx_final (sent (snd (exit_scope env (Some e) s2))) = [] \<and>
              \<not> committed (snd (exit_scope env (Some e) s2)))"
proof -
  have s1: "s1 = snd (start env (init bucket blob ct cs))"
    using assms(2) by (simp add: enter_def)
  have c1: "consistent s1" and l1: "linked s1" and cs1: "s_chunk_size s1 = cs"
    and q1: "s_request s1 \<noteq> None" and z1: "s_buffer_size s1 = 0"
    and v1: "live s1" and u1: "unmarked s1"
    by (simp_all add: s1 start_keeps start_live init_sound)
  have z: "0 \<le> s_chunk_size s1" using cs1 assms(1) by simp
  from writes_unmarked[OF assms(3) u1 c1 l1 z] have u2: "unmarked s2" .
  have nf: "list_all (\<lambda>tx. \<not> tx_final tx) (sent s2)" and nc: "\<not> committed s2"
    using u2 by (simp_all add: unmarked_def sent_def committed_def split: option.splits)
  have none: "filter tx_final (sent s2) = []"
    using nf by (induction "sent s2") (simp_all add: list_all_iff filter_empty_conv)
  have normal: "(\<exists>tx. sent (snd (exit_scope env None s2)) = sent s2 @ [tx] \<and> tx_final tx \<and>
                  tx_payload tx = s_buffer s2) \<and>
            length (filter tx_final (sent (snd (exit_scope env None s2)))) = 1 \<and>
            committed (snd (exit_scope env None s2)) = (fst (exit_scope env None s2) = Inr ())"
    if r: "r = Inr ()"
  proof -
    from writes_sound[OF assms(3) c1 l1 z q1] cs1 r z1 assms(1)
    have c2: "consistent s2" and l2: "linked s2" and lt: "s_buffer_size s2 < s_chunk_size s2"
      by simp_all
    from writes_live[OF assms(3)[unfolded r] v1 c1 l1 z] have v2: "live s2" .
    from stop_flushes(2)[OF v2 c2 l2 lt, of env] obtain tx where
      tx: "sent (snd (stop env s2)) = sent s2 @ [tx]" "tx_final tx" "tx_payload tx = s_buffer s2"
      by blast
    have "length (filter tx_final (sent (snd (stop env s2)))) = 1"
      using tx(1,2) none by simp
    with tx stop_flushes(4)[OF v2 c2 l2 lt, of env] show ?thesis
      by (simp add: exit_scope_def)
  qed
  have abnormal: "sent (snd (exit_scope env (Some e) s2)) = sent s2 \<and>
              filter tx_final (sent (snd (exit_scope env (Some e) s2))) = [] \<and>
              \<not> committed (snd (exit_scope env (Some e) s2))" for e
    using none nc by (simp add: exit_scope_def)
  from nf nc normal abnormal show ?thesis by blast
qed

theorem final_chunk_on_normal_release_witness:
  "\<exists>s1 s2. enter (\<lambda>k. Accepted) (init ''b'' ''o'' None default_chunk_size) = (Inr (), s1) \<and>
     writes (\<lambda>k. Accepted) s1 [replicate 262144 1, [2], [3]] = Some (Inr (), s2) \<and>
     map (\<lambda>tx. (tx_start tx, tx_payload tx, tx_final tx)) (sent s2)
       = [(0, replicate 262144 1, False)] \<and>
     \<not> committed s2 \<and>
     map (\<lambda>tx. (tx_start tx, tx_payload tx, tx_final tx))
         (sent (snd (exit_scope (\<lambda>k. Accepted) None s2)))
       = [(0, replicate 262144 1, False), (262144, [2, 3], True)] \<and>
     length (filter tx_final (sent (snd (exit_scope (\<lambda>k. Accepted) None s2)))) = 1 \<and>
     committed (snd (exit_scope (\<lambda>k. Accepted) None s2)) \<and>
     sent (snd (exit_scope (\<lambda>k. Accepted) (Some TransportError) s2)) = sent s2"
proof -
  let ?env = "\<lambda>k::nat. Accepted"
  have pos: "0 < default_chunk_size" by (simp add: default_chunk_size_def)
  have "\<exists>s1. enter ?env (init ''b'' ''o'' None default_chunk_size) = (Inr (), s1)"
    by (simp add: stream_eval)
  then obtain s1 where e: "enter ?env (init ''b'' ''o'' None default_chunk_size) = (Inr (), s1)" ..
  then have "\<exists>s2. writes ?env s1 [replicate 262144 1, [2], [3]] = Some (Inr (), s2)"
    by (auto simp: stream_eval)
  then obtain s2 where w: "writes ?env s1 [replicate 262144 1, [2], [3]] = Some (Inr (), s2)" ..
  from e w have p: "map (\<lambda>tx. (tx_start tx, tx_payload tx, tx_final tx)) (sent s2)
       = [(0, replicate 262144 1, False)]"
    "map (\<lambda>tx. (tx_start tx, tx_payload tx, tx_final tx)) (sent (snd (exit_scope ?env None s2)))
       = [(0, replicate 262144 1, False), (262144, [2, 3], True)]"
    "fst (exit_scope ?env None s2) = Inr ()"
    by (auto simp: stream_eval)
  from final_chunk_on_normal_release[OF pos e w] p(3)
  have "\<not> committed s2"
    and "length (filter tx_final (sent (snd (exit_scope ?env None s2)))) = 1"
    and "committed (snd (exit_scope ?env None s2))"
    and "sent (snd (exit_scope ?env (Some TransportError) s2)) = sent s2"
    by simp_all
  with e w p(1,2) show ?thesis by (intro exI[of _ s1] exI[of _ s2]) simp
qed




text \<open>
  C4, as amended. In every state a new object reaches by any sequence of calls, the
  buffered size is not negative. When no read size in that sequence was negative and
  \<open>n\<close> is not negative either, \<^verbatim>\<open>read(n)\<close> returns \<open>min(n, size_before)\<close> bytes, they
  are the head of the buffer, the rest stays in order, and the buffered size goes down
  by what was returned and remains the length of the buffer.
\<close>

theorem read_returns_head:
  assumes "run env (init bucket blob ct cs) ops = Some s"
  shows "0 \<le> s_buffer_size s \<and> 0 \<le> s_buffer_size (snd (read s n)) \<and>
         (0 \<le> cs \<and> nonneg_reads ops \<and> 0 \<le> n \<longrightarrow>
            int (length (fst (read s n))) = min n (s_buffer_size s) \<and>
            fst (read s n) @ s_buffer (snd (read s n)) = s_buffer s \<and>
            s_buffer_size (snd (read s n)) = s_buffer_size s - int (length (fst (read s n))) \<and>
            s_buffer_size (snd (read s n)) = int (length (s_buffer (snd (read s n)))))"
proof -
  from run_keeps[OF assms] have nn: "0 \<le> s_buffer_size s" by (simp add: init_sound)
  then have nn': "0 \<le> s_buffer_size (snd (read s n))" by (simp add: read_keeps)
  have "int (length (fst (read s n))) = min n (s_buffer_size s) \<and>
            fst (read s n) @ s_buffer (snd (read s n)) = s_buffer s \<and>
            s_buffer_size (snd (read s n)) = s_buffer_size s - int (length (fst (read s n))) \<and>
            s_buffer_size (snd (read s n)) = int (length (s_buffer (snd (read s n))))"
    if "0 \<le> cs" and "nonneg_reads ops" and n: "0 \<le> n"
  proof -
    from run_sound[OF assms that(2) init_sound(1,2)] that(1)
    have c: "consistent s" by (simp add: init_sound)
    from read_sound[OF c n] show ?thesis
      by (simp add: consistent_def read_snd)
  qed
  with nn nn' show ?thesis by blast
qed

theorem read_returns_head_witness:
  "\<exists>s. run (\<lambda>k. Accepted) (init ''b'' ''o'' None 4) [Start, Write [1, 2, 3], Read 1] = Some s \<and>
       s_buffer s = [2, 3] \<and> s_buffer_size s = 2 \<and>
       int (length (fst (read s 5))) = 2 \<and>
       fst (read s 5) @ s_buffer (snd (read s 5)) = [2, 3] \<and>
       s_buffer_size (snd (read s 5)) = 0 \<and>
       int (length (s_buffer (snd (read s 5)))) = 0"
proof -
  have "\<exists>s. run (\<lambda>k. Accepted) (init ''b'' ''o'' None 4) [Start, Write [1, 2, 3], Read 1] = Some s
          \<and> s_buffer s = [2, 3] \<and> s_buffer_size s = 2"
    by (simp add: stream_eval)
  then obtain s where r: "run (\<lambda>k. Accepted) (init ''b'' ''o'' None 4)
          [Start, Write [1, 2, 3], Read 1] = Some s"
    and b: "s_buffer s = [2, 3]" "s_buffer_size s = 2" by blast
  have nn: "nonneg_reads [Start, Write [1, 2, 3], Read 1]" by simp
  from read_returns_head[OF r, of 5] nn b have
    "int (length (fst (read s 5))) = 2 \<and>
       fst (read s 5) @ s_buffer (snd (read s 5)) = [2, 3] \<and>
       s_buffer_size (snd (read s 5)) = 0 \<and>
       int (length (s_buffer (snd (read s 5)))) = 0"
    by auto
  with r b show ?thesis by blast
qed

theorem read_negative_counterexample:
  "map_option (\<lambda>s. (s_buffer s, s_buffer_size s, fst (read s (- 1)), min (- 1) (s_buffer_size s),
                     s_buffer (snd (read s (- 1))), s_buffer_size (snd (read s (- 1)))))
     (run (\<lambda>k. Accepted) (init ''b'' ''o'' None default_chunk_size) [Start, Write [1, 2]])
   = Some ([1, 2], 2, [1], - 1, [2], 3) \<and>
   map_option (\<lambda>s. (s_buffer s, s_buffer_size s, fst (read s 5), min 5 (s_buffer_size s)))
     (run (\<lambda>k. if k = 0 then Accepted else Broken) (init ''b'' ''o'' None (- 262144))
        [Start, Write [1, 2]])
   = Some ([1, 2], 262146, [1, 2], 5)"
  by (simp add: stream_eval)

text \<open>
  C5. Scenario A. With chunk size 262144 on a newly started stream (the buffer is
  empty), one write of 300000 bytes makes exactly one transmission, whatever the backend
  answers; it carries the first 262144 bytes, and the other 37856 are buffered when
  write is left. When the backend accepts the transmission, write returns 300000.
\<close>

theorem scenario_a:
  assumes "length d = 300000"
  shows "\<exists>r s'. write_data env (snd (start env (init bucket blob ct 262144))) d = Some (r, s') \<and>
           map tx_payload (sent s') = [take 262144 d] \<and>
           s_buffer_size s' = 37856 \<and> s_buffer s' = drop 262144 d \<and>
           length (s_buffer s') = 37856 \<and>
           (env 1 = Accepted \<longrightarrow> r = Inr 300000)"
proof -
  define s0 where "s0 = snd (start env (init bucket blob ct 262144))"
  define p where "p = s0\<lparr>s_buffer_size := s_buffer_size s0 + int (length d),
                          s_buffer := s_buffer s0 @ d\<rparr>"
  obtain rq where rq: "s_request p = Some rq" and ok: "\<not> rq_finished rq" "\<not> rq_invalid rq"
    and rqf: "rq_chunk_size rq = 262144" "rq_sent rq = []" "rq_calls rq = 1"
    by (simp add: p_def s0_def start_def initiate_def ResumableUpload_def Let_def init_def
          tell_def)
  have p: "s_chunk_size p = 262144" "s_buffer_size p = 300000" "s_buffer p = d"
    using assms by (simp_all add: p_def s0_def start_keeps init_sound)
  define s1 where "s1 = snd (transmit_next_chunk read tell env p)"
  define s2 where "s2 = snd (recover env s1)"
  have s1: "s_buffer_size s1 = 37856" "s_chunk_size s1 = 262144"
    "s_buffer s1 = drop 262144 d" "map tx_payload (sent s1) = [take 262144 d]"
    unfolding s1_def
    by (simp_all add: transmit_fields[OF rq ok] p rqf slice_from_def slice_to_def sent_def)
  have s2: "s_buffer_size s2 = 37856" "s_chunk_size s2 = 262144"
    "s_buffer s2 = drop 262144 d" "map tx_payload (sent s2) = [take 262144 d]"
    unfolding s2_def by (simp_all add: recover_fields recover_keeps s1)
  have e1: "write_loop env s1 = Some (Inr (), s1)"
    by (rule write_loop_exit) (simp add: s1)
  have ge: "s_chunk_size p \<le> s_buffer_size p" by (simp add: p)
  have loop: "write_loop env p =
      (case env 1 of Accepted \<Rightarrow> Some (Inr (), s1) | Broken \<Rightarrow> Some (Inl TransportError, s1)
       | Rejected \<Rightarrow> (case env (Suc 1) of Accepted \<Rightarrow> Some (Inl AttributeError, s2)
           | Rejected \<Rightarrow> Some (Inl InvalidResponse, s2) | Broken \<Rightarrow> Some (Inl TransportError, s2)))"
    unfolding write_loop_step[OF ge rq ok] Let_def s1_def[symmetric] s2_def[symmetric] e1 rqf ..
  have len: "length (drop 262144 d) = 37856" using assms by simp
  have w: "write_data env s0 d =
      (case write_loop env p of None \<Rightarrow> None | Some (Inl e, s2) \<Rightarrow> Some (Inl e, s2)
       | Some (Inr u, s2) \<Rightarrow> Some (Inr (int (length d)), s2))"
    by (simp add: write_data_def Let_def p_def)
  show ?thesis
    unfolding s0_def[symmetric] w loop using s1 s2 len assms
    by (cases "env 1"; cases "env (Suc 1)"; simp)
qed

theorem scenario_a_witness:
  "\<exists>s'. write_data (\<lambda>k. Accepted) (snd (start (\<lambda>k. Accepted) (init ''b'' ''o'' None 262144)))
           (replicate 300000 0) = Some (Inr 300000, s') \<and>
        map tx_payload (sent s') = [replicate 262144 0] \<and>
        s_buffer_size s' = 37856 \<and> s_buffer s' = replicate 37856 0"
proof -
  have l: "length (replicate 300000 (0::8 word)) = 300000" by simp
  from scenario_a[OF l, of "\<lambda>k. Accepted" "''b''" "''o''" None]
  show ?thesis by auto
qed

text \<open>
  C6. For every chunk size above zero and every state a new stream reaches by calls
  with non-negative read sizes, a call of write comes back, and when it returns (rather
  than raises) fewer bytes than one chunk are buffered: both the counter and the
  buffer itself are below the chunk size.
\<close>

theorem backlog_below_chunk:
  assumes "0 < cs" and "nonneg_reads ops"
    and "run env (init bucket blob ct cs) ops = Some s"
  shows "\<exists>r s'. write_data env s d = Some (r, s') \<and>
           (\<forall>n. r = Inr n \<longrightarrow> s_buffer_size s' < cs \<and> int (length (s_buffer s')) < cs)"
proof -
  from run_keeps[OF assms(3)] have cs: "s_chunk_size s = cs" and l: "linked s"
    by (simp_all add: init_sound)
  from run_sound[OF assms(3,2) init_sound(1,2)] assms(1) have c: "consistent s"
    by (simp add: init_sound)
  from write_data_returns[of s env d] cs l assms(1)
  obtain r s' where w: "write_data env s d = Some (r, s')" by fastforce
  have z: "0 \<le> s_chunk_size s" using cs assms(1) by simp
  from write_data_sound(1)[OF w c l z] have c': "consistent s'" .
  have "s_buffer_size s' < cs \<and> int (length (s_buffer s')) < cs" if "r = Inr n" for n
    using write_data_keeps(6)[OF w that] write_data_keeps(1)[OF w] cs c'
    by (simp add: consistent_def)
  with w show ?thesis by blast
qed

theorem backlog_below_chunk_witness:
  "\<exists>s s'. run (\<lambda>k. Accepted) (init ''b'' ''o'' None 2) [Start, Write [1]] = Some s \<and>
     write_data (\<lambda>k. Accepted) s [2, 3, 4, 5] = Some (Inr 4, s') \<and>
     s_buffer s' = [5] \<and> s_buffer_size s' = 1 \<and> s_buffer_size s' < 2"
proof -
  have "\<exists>s. run (\<lambda>k. Accepted) (init ''b'' ''o'' None 2) [Start, Write [1]] = Some s"
    by (simp add: stream_eval)
  then obtain s where r: "run (\<lambda>k. Accepted) (init ''b'' ''o'' None 2) [Start, Write [1]] = Some s" ..
  have nn: "nonneg_reads [Start, Write [1]]" by simp
  from backlog_below_chunk[OF _ nn r, of "[2, 3, 4, 5]"] obtain r' s' where
    w: "write_data (\<lambda>k. Accepted) s [2, 3, 4, 5] = Some (r', s')"
    and b: "\<forall>n. r' = Inr n \<longrightarrow> s_buffer_size s' < 2 \<and> int (length (s_buffer s')) < 2"
    by auto
  from r w have v: "r' = Inr 4" "s_buffer s' = [5]" "s_buffer_size s' = 1"
    by (auto simp: stream_eval)
  with b r w show ?thesis by blast
qed

text \<open>
  C7, as amended. For a new object with a chunk size that is not negative, and any
  sequence of calls in which no read size is negative: \<^verbatim>\<open>tell()\<close> is the number of
  bytes \<^verbatim>\<open>read\<close> has returned so far, it never exceeds the number of bytes written,
  and it is at least what it was after any earlier part of the sequence.
\<close>

theorem cursor_counts_returned_bytes:
  assumes "0 \<le> cs" and "nonneg_reads (ops1 @ ops2)"
    and "run env (init bucket blob ct cs) (ops1 @ ops2) = Some s2"
  shows "\<exists>s1. run env (init bucket blob ct cs) ops1 = Some s1 \<and> tell s1 \<le> tell s2 \<and>
              tell s2 = int (length (concat (s_returned s2))) \<and>
              tell s2 \<le> int (length (written (ops1 @ ops2)))"
proof -
  from assms(3) obtain s1 where r1: "run env (init bucket blob ct cs) ops1 = Some s1"
    and r2: "run env s1 ops2 = Some s2"
    by (auto simp: run_append split: option.splits)
  from assms(2) have n1: "nonneg_reads ops1" and n2: "nonneg_reads ops2"
    by (simp_all add: nonneg_reads_append)
  from run_sound[OF r1 n1 init_sound(1,2)] assms(1) have c1: "consistent s1"
    by (simp add: init_sound)
  from run_keeps[OF r1] assms(1) have l1: "linked s1" and z1: "0 \<le> s_chunk_size s1"
    by (simp_all add: init_sound)
  from run_sound[OF r2 n2 c1 l1 z1] have mono: "tell s1 \<le> tell s2" by (simp add: tell_def)
  from run_sound[OF assms(3,2) init_sound(1,2)] assms(1)
  have c2: "consistent s2" and all: "concat (s_returned s2) @ s_buffer s2 = written (ops1 @ ops2)"
    by (simp_all add: init_sound)
  from c2 have t2: "tell s2 = int (length (concat (s_returned s2)))"
    by (simp add: consistent_def tell_def)
  have "length (concat (s_returned s2)) \<le> length (concat (s_returned s2) @ s_buffer s2)" by simp
  with all t2 have "tell s2 \<le> int (length (written (ops1 @ ops2)))" by simp
  with r1 mono t2 show ?thesis by blast
qed

theorem cursor_counts_returned_bytes_witness:
  "\<exists>s1 s2. run (\<lambda>k. Accepted) (init ''b'' ''o'' None 2) [Start, Write [1, 2, 3]] = Some s1 \<and>
     run (\<lambda>k. Accepted) (init ''b'' ''o'' None 2) ([Start, Write [1, 2, 3]] @ [Read 5, Tell]) = Some s2 \<and>
     tell s1 = 2 \<and> tell s2 = 3 \<and> s_returned s2 = [[1, 2], [3]]"
proof -
  have "\<exists>s2. run (\<lambda>k. Accepted) (init ''b'' ''o'' None 2) ([Start, Write [1, 2, 3]] @ [Read 5, Tell]) = Some s2
      \<and> tell s2 = 3 \<and> s_returned s2 = [[1, 2], [3]]"
    by (simp add: stream_eval)
  then obtain s2 where r: "run (\<lambda>k. Accepted) (init ''b'' ''o'' None 2)
        ([Start, Write [1, 2, 3]] @ [Read 5, Tell]) = Some s2"
    and t: "tell s2 = 3" "s_returned s2 = [[1, 2], [3]]" by blast
  have nn: "nonneg_reads ([Start, Write [1, 2, 3]] @ [Read 5, Tell])" by simp
  from cursor_counts_returned_bytes[OF _ nn r] obtain s1 where
    "run (\<lambda>k. Accepted) (init ''b'' ''o'' None 2) [Start, Write [1, 2, 3]] = Some s1" by auto
  moreover from this have "tell s1 = 2" by (auto simp: stream_eval)
  ultimately show ?thesis using r t by blast
qed

theorem cursor_negative_read_counterexample:
  "map_option tell (run (\<lambda>k. Accepted) (init ''b'' ''o'' None default_chunk_size)
       [Start, Write [1, 2]]) = Some 0 \<and>
   map_option (\<lambda>s. (tell s, s_returned s))
     (run (\<lambda>k. Accepted) (init ''b'' ''o'' None default_chunk_size)
       [Start, Write [1, 2], Read (- 1)]) = Some (- 1, [[1]]) \<and>
   map_option (\<lambda>s. (tell s, s_returned s))
     (run (\<lambda>k. if k = 0 then Accepted else Broken) (init ''b'' ''o'' None (- 262144))
       [Start, Write [1, 2]]) = Some (- 262144, [[]])"
  by (simp add: stream_eval)

text \<open>
  C8. When an exception is unwinding, \<^verbatim>\<open>__exit__\<close> of either class returns at once:
  it makes no call on the session, so no transmission happens, final or not, and the
  object and everything the backend was sent stay as they were. A \<^verbatim>\<open>with\<close> block
  whose body raises therefore ends in the state in which the body raised, with that
  exception.
\<close>

theorem abnormal_exit_sends_nothing:
  "exit_scope env (Some e) s = (Inr (), s) \<and>
   exit_scope_main env (Some e) s = (Inr (), s) \<and>
   sent (snd (exit_scope env (Some e) s)) = sent s \<and>
   sent (snd (exit_scope_main env (Some e) s)) = sent s \<and>
   (enter env s0 = (Inr (), s1) \<and> writes env s1 ds = Some (Inl e, s2) \<longrightarrow>
      with_stream env s0 ds = Some (Inl e, s2))"
  by (simp add: exit_scope_def exit_scope_main_def with_stream_def)

theorem abnormal_exit_sends_nothing_witness:
  "\<exists>s2. with_stream (\<lambda>k. if k = 1 then Broken else Accepted) (init ''b'' ''o'' None 2)
           [[1, 2, 3], [4]] = Some (Inl TransportError, s2) \<and>
        map tx_payload (sent s2) = [[1, 2]] \<and> s_buffer s2 = [3] \<and>
        exit_scope (\<lambda>k. if k = 1 then Broken else Accepted) (Some TransportError) s2 = (Inr (), s2)"
proof -
  let ?env = "\<lambda>k::nat. if k = 1 then Broken else Accepted"
  have "\<exists>s1 s2. enter ?env (init ''b'' ''o'' None 2) = (Inr (), s1) \<and>
     writes ?env s1 [[1, 2, 3], [4]] = Some (Inl TransportError, s2) \<and>
     map tx_payload (sent s2) = [[1, 2]] \<and> s_buffer s2 = [3]"
    by (simp add: stream_eval)
  then obtain s1 where "\<exists>s2. enter ?env (init ''b'' ''o'' None 2) = (Inr (), s1) \<and>
     writes ?env s1 [[1, 2, 3], [4]] = Some (Inl TransportError, s2) \<and>
     map tx_payload (sent s2) = [[1, 2]] \<and> s_buffer s2 = [3]" ..
  then obtain s2 where f: "enter ?env (init ''b'' ''o'' None 2) = (Inr (), s1) \<and>
     writes ?env s1 [[1, 2, 3], [4]] = Some (Inl TransportError, s2) \<and>
     map tx_payload (sent s2) = [[1, 2]] \<and> s_buffer s2 = [3]" ..
  note e = f[THEN conjunct1] and w = f[THEN conjunct2, THEN conjunct1]
    and v = f[THEN conjunct2, THEN conjunct2]
  from abnormal_exit_sends_nothing[of ?env TransportError s2 "init ''b'' ''o'' None 2" s1
      "[[1, 2, 3], [4]]" s2] e w
  have "with_stream ?env (init ''b'' ''o'' None 2) [[1, 2, 3], [4]] = Some (Inl TransportError, s2)"
    and "exit_scope ?env (Some TransportError) s2 = (Inr (), s2)"
    by simp_all
  with v show ?thesis by (intro exI[of _ s2]) simp
qed

text \<open>
  C9. The class in main.py and the class in base.py are the same on their shared surface:
  a new object of the one is a new object of the other without a content type, and in
  every state and for every argument, read, tell and write of the one return what those
  of the other return and leave the object in the same state, the loop that never ends
  included; so do stop and the release. The sessions the two start differ in the content
  type alone, which is the literal \<^verbatim>\<open>'application/octet-stream'\<close> in main.py.
\<close>

theorem duplicate_classes_agree:
  "init_main bucket blob cs = init bucket blob None cs \<and>
   read_main s n = read s n \<and> tell_main s = tell s \<and>
   write_data_main env s d = write_data env s d \<and>
   stop_main env s = stop env s \<and>
   exit_scope_main env exc s = exit_scope env exc s \<and>
   start_main env s =
     (fst (start env s),
      (snd (start env s))\<lparr>s_request :=
         map_option (\<lambda>rq. rq\<lparr>rq_content_type := Some ''application/octet-stream''\<rparr>)
           (s_request (snd (start env s)))\<rparr>)"
proof -
  have "start_main env s =
     (fst (start env s),
      (snd (start env s))\<lparr>s_request :=
         map_option (\<lambda>rq. rq\<lparr>rq_content_type := Some ''application/octet-stream''\<rparr>)
           (s_request (snd (start env s)))\<rparr>)"
    by (simp add: start_main_def start_def initiate_def Let_def tell_main_def tell_def)
  moreover have "write_data_main env s d = write_data env s d"
    by (simp add: write_data_main_def write_data_def write_loop_main_eq)
  moreover have "stop_main env s = stop env s"
    by (simp add: stop_main_def stop_def read_main_eq tell_main_eq)
  moreover have "exit_scope_main env exc s = exit_scope env exc s"
    by (simp add: exit_scope_main_def exit_scope_def stop_main_def stop_def read_main_eq tell_main_eq)
  ultimately show ?thesis
    by (simp add: read_main_eq tell_main_eq init_main_def init_def)
qed

text \<open>
  C10. Conservation of bytes. After every sequence of calls on a new object, whatever
  the chunk size, the read sizes and the answers of the backend, \<^verbatim>\<open>tell()\<close> plus the
  buffered size is the number of bytes passed to write so far. When no read size is
  negative (the chunk size is the read size of a transmission), the buffered size is
  the length of the buffer, and the bytes read so far followed by the bytes still
  buffered are exactly the bytes written, in order: every byte is in one of the two
  places and in one only.
\<close>

theorem bytes_conserved:
  assumes "run env (init bucket blob ct cs) ops = Some s"
  shows "tell s + s_buffer_size s = int (length (written ops)) \<and>
         (0 \<le> cs \<and> nonneg_reads ops \<longrightarrow>
            s_buffer_size s = int (length (s_buffer s)) \<and>
            tell s = int (length (concat (s_returned s))) \<and>
            concat (s_returned s) @ s_buffer s = written ops)"
proof -
  from run_keeps[OF assms] have "tell s + s_buffer_size s = int (length (written ops))"
    by (simp add: init_sound tell_def)
  moreover have "s_buffer_size s = int (length (s_buffer s)) \<and>
            tell s = int (length (concat (s_returned s))) \<and>
            concat (s_returned s) @ s_buffer s = written ops"
    if "0 \<le> cs" and "nonneg_reads ops"
  proof -
    from run_sound[OF assms that(2) init_sound(1,2)] that(1)
    show ?thesis by (simp add: init_sound consistent_def tell_def)
  qed
  ultimately show ?thesis by blast
qed

theorem bytes_conserved_witness:
  "\<exists>s. run (\<lambda>k. Accepted) (init ''b'' ''o'' None 2)
          [Start, Write [1, 2, 3], Read 5, Tell, Write [4], Stop] = Some s \<and>
       tell s + s_buffer_size s = 4 \<and>
       s_buffer_size s = int (length (s_buffer s)) \<and>
       tell s = int (length (concat (s_returned s))) \<and>
       concat (s_returned s) @ s_buffer s = [1, 2, 3, 4]"
proof -
  have "\<exists>s. run (\<lambda>k. Accepted) (init ''b'' ''o'' None 2)
          [Start, Write [1, 2, 3], Read 5, Tell, Write [4], Stop] = Some s"
    by (simp add: stream_eval)
  then obtain s where r: "run (\<lambda>k. Accepted) (init ''b'' ''o'' None 2)
          [Start, Write [1, 2, 3], Read 5, Tell, Write [4], Stop] = Some s" ..
  from bytes_conserved[OF r] r show ?thesis by simp
qed

end
